theory Spec2Isabelle
  imports Main "HOL-Library.Word"
begin

section \<open>Data model of the Recipe store (recipe.hpp)\<close>

text \<open>
  The store binds string identifiers to caller memory and round-trips the bytes through a
  length-prefixed binary file. C++ \<open>char\<close> is modelled by \<^typ>\<open>char\<close> (eight bits),
  \<open>std::string\<close> and file contents by \<^typ>\<open>string\<close>, \<open>size_t\<close> by a 64-bit word and a
  \<open>char *\<close> by the address it holds. The streams are opened without \<open>ios::binary\<close>; the
  host modelled is one where that changes no byte (POSIX).
\<close>

type_synonym size_t = "64 word"
type_synonym addr = nat
type_synonym memory = "addr \<Rightarrow> char"

text \<open>\<open>struct RecipeItem { char *ptr; size_t size; }\<close>\<close>

record RecipeItem =
  ptr :: addr
  item_size :: size_t

text \<open>
  \<open>std::unordered_map<std::string, RecipeItem*>\<close>: an association list in iteration order.
  The order itself is implementation-defined; no property proved below depends on where
  \<open>emplace\<close> puts a new entry.
\<close>

type_synonym registry = "(string \<times> RecipeItem) list"

text \<open>The private fields of \<open>class Recipe\<close>.\<close>

record Recipe =
  m_folder :: string
  m_extension :: string
  m_name :: string
  m_map :: registry
  m_init :: bool

text \<open>
  What storage holds before the code gives it a value: the locals \<open>size\<close> and
  \<open>character\<close> of \<open>load_recipe\<close>, and the elements of an array that \<open>new char[size]\<close>
  returns, by index. \<open>load_recipe\<close> reads such storage only after a read has run past the
  end of the file; the C++ standard gives that no meaning, and the hosts modelled here
  read the bytes that happen to be there. Every property below holds whatever they are.
\<close>

record unset_storage =
  unset_size :: size_t
  unset_character :: char
  unset_array :: "nat \<Rightarrow> char"

text \<open>
  What the store acts on outside itself: the files by path, whether a missing file can be
  created at a path (\<open>create_directories\<close> and the \<open>ofstream\<close> raise no
  \<open>filesystem_error\<close>), the caller's memory, and the storage that has no value yet. The
  memory is a total map: that the registered addresses are valid is the caller's
  contract.
\<close>

record world =
  files :: "string \<Rightarrow> string option"
  creatable :: "string \<Rightarrow> bool"
  mem :: memory
  unset :: unset_storage

text \<open>
  Outcomes that are no return value: in \<open>load_recipe\<close> the stream was never opened, so
  \<open>eof()\<close> never becomes true and the loop does not end; and a null \<open>RecipeItem*\<close> is
  dereferenced.
\<close>

datatype error = OpenFailed | NullItem

section \<open>Writing and reading \<open>size_t\<close>\<close>

text \<open>
  \<open>file.write((char*)&n, sizeof(n))\<close> writes the object representation of \<open>n\<close>: eight
  bytes, least significant first on the little-endian 64-bit hosts modelled here.
\<close>

fun le_bytes :: "nat \<Rightarrow> nat \<Rightarrow> string" where
  "le_bytes 0 n = []"
| "le_bytes (Suc k) n = char_of n # le_bytes k (n div 256)"

fun le_nat :: "string \<Rightarrow> nat" where
  "le_nat [] = 0"
| "le_nat (c # cs) = of_char c + 256 * le_nat cs"

definition size_t_bytes :: "size_t \<Rightarrow> string" where
  "size_t_bytes n = le_bytes 8 (unat n)"

definition size_t_of_bytes :: "string \<Rightarrow> size_t" where
  "size_t_of_bytes cs = of_nat (le_nat cs)"

section \<open>Constructors, lifecycle and path (recipe.cpp, lines 9-79 and 218-265)\<close>

definition Recipe0 :: Recipe where
  "Recipe0 = \<lparr>m_folder = [], m_extension = ''.rcp'', m_name = [], m_map = [], m_init = False\<rparr>"

definition Recipe3 :: "string \<Rightarrow> string \<Rightarrow> string \<Rightarrow> Recipe" where
  "Recipe3 name folder extension =
     \<lparr>m_folder = folder, m_extension = extension, m_name = name, m_map = [], m_init = False\<rparr>"

definition get_path :: "Recipe \<Rightarrow> string" where
  "get_path r = m_folder r @ m_name r @ m_extension r"

definition stop :: "Recipe \<Rightarrow> Recipe" where
  "stop r = r\<lparr>m_init := False\<rparr>"

definition is_init :: "Recipe \<Rightarrow> bool" where
  "is_init r = m_init r"

definition set_name :: "string \<Rightarrow> Recipe \<Rightarrow> Recipe" where
  "set_name name r = stop (r\<lparr>m_name := name\<rparr>)"

definition set_folder :: "string \<Rightarrow> Recipe \<Rightarrow> Recipe" where
  "set_folder folder r =
     stop (r\<lparr>m_folder := folder @ (if folder \<noteq> [] \<and> last folder \<noteq> CHR ''/'' then ''/'' else [])\<rparr>)"

definition set_extension :: "string \<Rightarrow> Recipe \<Rightarrow> Recipe" where
  "set_extension extension r =
     stop (r\<lparr>m_extension :=
       (if extension \<noteq> [] \<and> hd extension \<noteq> CHR ''.'' then ''.'' else []) @ extension\<rparr>)"

text \<open>
  \<open>init\<close>: an empty name returns false and leaves the flag as it is; an existing path sets
  the flag; otherwise the file is created empty, or the flag is cleared when that raises.
\<close>

definition init :: "Recipe \<Rightarrow> world \<Rightarrow> bool \<times> Recipe \<times> world" where
  "init r w =
     (if m_name r = [] then (False, r, w)
      else let path_string = get_path r in
        if files w path_string \<noteq> None then (True, r\<lparr>m_init := True\<rparr>, w)
        else if creatable w path_string
          then (True, r\<lparr>m_init := True\<rparr>, w\<lparr>files := (files w)(path_string \<mapsto> [])\<rparr>)
          else (False, r\<lparr>m_init := False\<rparr>, w))"

section \<open>The registry (recipe.cpp, lines 92-118)\<close>

definition count_id :: "registry \<Rightarrow> string \<Rightarrow> nat" where
  "count_id m ident = length (filter (\<lambda>p. fst p = ident) m)"

definition erase :: "registry \<Rightarrow> string \<Rightarrow> registry" where
  "erase m ident = filter (\<lambda>p. fst p \<noteq> ident) m"

text \<open>
  \<open>_map[id]\<close> where the code has just checked \<open>count(id)\<close>. On an absent key
  \<open>operator[]\<close> would insert a null pointer (the only way these functions could change the
  registry behind the caller's back), which the next statement dereferences: that outcome
  is the error \<open>NullItem\<close>.
\<close>

definition index_map :: "registry \<Rightarrow> string \<Rightarrow> error + RecipeItem" where
  "index_map m ident = (case map_of m ident of Some item \<Rightarrow> Inr item | None \<Rightarrow> Inl NullItem)"

definition add_variable :: "string \<Rightarrow> addr \<Rightarrow> size_t \<Rightarrow> Recipe \<Rightarrow> bool \<times> Recipe" where
  "add_variable ident var sz r =
     (if count_id (m_map r) ident > 0 then (False, r)
      else let item = \<lparr>ptr = var, item_size = sz\<rparr>
           in (True, r\<lparr>m_map := (ident, item) # m_map r\<rparr>))"

definition remove_variable :: "string \<Rightarrow> Recipe \<Rightarrow> error + bool \<times> Recipe" where
  "remove_variable ident r =
     (if count_id (m_map r) ident = 0 then Inr (False, r)
      else case index_map (m_map r) ident of
             Inl e \<Rightarrow> Inl e
           | Inr item \<Rightarrow> Inr (True, r\<lparr>m_map := erase (m_map r) ident\<rparr>))"

section \<open>Save codec (recipe.cpp, lines 194-211)\<close>

definition read_bytes :: "memory \<Rightarrow> addr \<Rightarrow> nat \<Rightarrow> string" where
  "read_bytes m p n = map (\<lambda>i. m (p + i)) [0..<n]"

definition padding :: char where
  "padding = CHR 0x00"

text \<open>The body of the loop over the registry: what one variable adds to the file.\<close>

definition save_entry :: "memory \<Rightarrow> string \<times> RecipeItem \<Rightarrow> string" where
  "save_entry m var =
     (let id_size = (of_nat (length (fst var)) :: size_t);
          num_bytes = id_size + item_size (snd var)
      in size_t_bytes id_size @ fst var @ size_t_bytes (item_size (snd var))
         @ read_bytes m (ptr (snd var)) (unat (item_size (snd var)))
         @ (if num_bytes mod 2 \<noteq> 0 then [padding] else []))"

fun save_entries :: "memory \<Rightarrow> registry \<Rightarrow> string" where
  "save_entries m [] = []"
| "save_entries m (var # vars) = save_entry m var @ save_entries m vars"

text \<open>
  Opening the \<open>ofstream\<close> creates the file or truncates it; the file system is taken as
  reliable here, so the stream opens and every write succeeds (the code checks neither).
\<close>

definition save_recipe :: "Recipe \<Rightarrow> world \<Rightarrow> bool \<times> Recipe \<times> world" where
  "save_recipe r w =
     (if \<not> m_init r then (False, r, w)
      else (True, r, w\<lparr>files := (files w)(get_path r \<mapsto> save_entries (mem w) (m_map r))\<rparr>))"


section \<open>Load codec (recipe.cpp, lines 128-185)\<close>

text \<open>
  The input stream inside the loop: the bytes not yet read, and whether a read has run
  past the end of the file. Such a read sets \<open>eofbit\<close> and \<open>failbit\<close> together; from then
  on every read is a no-op that leaves its buffer as it was, and \<open>eof()\<close> is true.
\<close>

record istream =
  unread :: string
  eof :: bool

text \<open>
  \<open>file.read(buf, n)\<close>: the bytes stored at the start of the buffer, and the stream
  afterwards. A read that finds fewer than \<open>n\<close> bytes stores those it finds.
\<close>

definition stream_read :: "nat \<Rightarrow> istream \<Rightarrow> string \<times> istream" where
  "stream_read n s =
     (if eof s then ([], s)
      else if length (unread s) < n then (unread s, \<lparr>unread = [], eof = True\<rparr>)
      else (take n (unread s), \<lparr>unread = drop n (unread s), eof = False\<rparr>))"

text \<open>
  The locals \<open>size\<close> and \<open>character\<close> are declared before the loop and keep their values
  from one iteration to the next. The heap has no limit in the model: \<open>new char[size]\<close>
  and appending to \<open>id\<close> succeed whatever the size.

  \<open>file.read((char*)&size, sizeof(size))\<close>, with the value of \<open>size\<close> before: the bytes
  read overwrite the first bytes of \<open>size\<close>, and a short read leaves the others.
\<close>

definition read_size :: "istream \<Rightarrow> size_t \<Rightarrow> size_t \<times> istream" where
  "read_size s sz =
     (case stream_read 8 s of
        (got, s') \<Rightarrow> (size_t_of_bytes (got @ drop (length got) (size_t_bytes sz)), s'))"

text \<open>\<open>file.read(&character, 1)\<close>, with the value of \<open>character\<close> before.\<close>

definition read_char :: "istream \<Rightarrow> char \<Rightarrow> char \<times> istream" where
  "read_char s ch =
     (case stream_read 1 s of (got, s') \<Rightarrow> (if got = [] then ch else hd got, s'))"

text \<open>
  Lines 143-146: \<open>for (i = 0; i < size; i++) { file.read(&character, 1); id += character; }\<close>,
  with the number of iterations still to run. Once the stream has failed, the character
  appended is the one that \<open>character\<close> held before.
\<close>

fun read_id :: "nat \<Rightarrow> istream \<Rightarrow> char \<Rightarrow> string \<Rightarrow> string \<times> istream \<times> char" where
  "read_id 0 s ch ident = (ident, s, ch)"
| "read_id (Suc n) s ch ident =
     (case read_char s ch of (c, s') \<Rightarrow> read_id n s' c (ident @ [c]))"

text \<open>
  Lines 151-152: \<open>data = new char[size]; file.read(data, size)\<close>. The elements that the
  read does not reach are as the new array had them: \<open>fresh i\<close> at index \<open>i\<close>. A read
  that leaves elements unreached makes \<open>eof()\<close> true, which ends the loop after this
  iteration; so one call of \<open>load_recipe\<close> has at most one such array, and one function
  of the index describes it.
\<close>

definition read_data :: "(nat \<Rightarrow> char) \<Rightarrow> nat \<Rightarrow> istream \<Rightarrow> string \<times> istream" where
  "read_data fresh n s =
     (case stream_read n s of (got, s') \<Rightarrow> (got @ map fresh [length got..<n], s'))"

text \<open>
  Lines 138-158: the identifier, the value and the padding byte of one entry. The result
  is the identifier, the value length, the value, and the stream and \<open>character\<close>
  afterwards.
\<close>

definition read_entry ::
  "(nat \<Rightarrow> char) \<Rightarrow> istream \<Rightarrow> size_t \<Rightarrow> char \<Rightarrow> string \<times> size_t \<times> string \<times> istream \<times> char" where
  "read_entry fresh s sz ch =
     (case read_size s sz of
        (size1, s1) \<Rightarrow>
         (case read_id (unat size1) s1 ch [] of
            (ident, s2, ch2) \<Rightarrow>
             (case read_size s2 size1 of
                (size2, s3) \<Rightarrow>
                 (case read_data fresh (unat size2) s3 of
                    (data, s4) \<Rightarrow>
                      (let num_bytes = 0 + size1 + size2 in
                       (case (if num_bytes mod 2 \<noteq> 0 then read_char s4 ch2 else (ch2, s4)) of
                          (ch5, s5) \<Rightarrow> (ident, size2, data, s5, ch5)))))))"

text \<open>Lines 174-176: \<open>for (i = 0; i < size; i++) item->ptr[i] = data[i]\<close>.\<close>

fun copy_bytes :: "memory \<Rightarrow> addr \<Rightarrow> string \<Rightarrow> memory" where
  "copy_bytes m p [] = m"
| "copy_bytes m p (c # cs) = copy_bytes (m(p := c)) (Suc p) cs"

text \<open>Lines 160-176: compare the entry with the registry, copy when both agree.\<close>

definition store_entry ::
  "registry \<Rightarrow> string \<Rightarrow> size_t \<Rightarrow> string \<Rightarrow> memory \<Rightarrow> error + memory" where
  "store_entry m ident sz data mm =
     (if count_id m ident = 0 then Inr mm
      else case index_map m ident of
             Inl e \<Rightarrow> Inl e
           | Inr item \<Rightarrow>
               if item_size item \<noteq> sz then Inr mm
               else Inr (copy_bytes mm (ptr item) data))"

text \<open>What the loop still has to look at: nothing once \<open>eof()\<close> is true.\<close>

definition pending :: "istream \<Rightarrow> nat" where
  "pending s = (if eof s then 0 else Suc (length (unread s)))"

lemma stream_read_pending: "pending (snd (stream_read n s)) \<le> pending s"
  by (simp add: stream_read_def pending_def)

lemma stream_read_less:
  "\<not> eof s \<Longrightarrow> unread s \<noteq> [] \<Longrightarrow> 0 < n \<Longrightarrow> pending (snd (stream_read n s)) < pending s"
  by (simp add: stream_read_def pending_def)

lemma read_char_pending: "pending (snd (read_char s ch)) \<le> pending s"
  using stream_read_pending [of 1 s] by (auto simp: read_char_def split: prod.splits)

lemma read_id_pending: "read_id n s ch ident = (i, s', ch') \<Longrightarrow> pending s' \<le> pending s"
proof (induction n arbitrary: s ch ident)
  case 0
  then show ?case by simp
next
  case (Suc n)
  obtain c s1 where r: "read_char s ch = (c, s1)" by (cases "read_char s ch")
  with Suc.prems have "read_id n s1 c (ident @ [c]) = (i, s', ch')" by simp
  with Suc.IH have "pending s' \<le> pending s1" by blast
  moreover from read_char_pending [of s ch] r have "pending s1 \<le> pending s" by simp
  ultimately show ?case by simp
qed

lemma read_entry_pending:
  assumes "read_entry fresh s sz ch = (ident, size2, data, s', ch')"
    and "\<not> eof s" and "unread s \<noteq> []"
  shows "pending s' < pending s"
proof -
  from assms(1) obtain size1 s1 s2 ch2 s3 s4 where
    r1: "read_size s sz = (size1, s1)" and
    r2: "read_id (unat size1) s1 ch [] = (ident, s2, ch2)" and
    r3: "read_size s2 size1 = (size2, s3)" and
    r4: "read_data fresh (unat size2) s3 = (data, s4)" and
    r5: "s' = s4 \<or> s' = snd (read_char s4 ch2)"
    by (auto simp: read_entry_def Let_def split: prod.splits if_splits)
  from r1 have "s1 = snd (stream_read 8 s)"
    by (auto simp: read_size_def split: prod.splits)
  with stream_read_less [OF assms(2,3), of 8] have 1: "pending s1 < pending s" by simp
  from read_id_pending [OF r2] have 2: "pending s2 \<le> pending s1" .
  from r3 have "s3 = snd (stream_read 8 s2)"
    by (auto simp: read_size_def split: prod.splits)
  with stream_read_pending [of 8 s2] have 3: "pending s3 \<le> pending s2" by simp
  from r4 have "s4 = snd (stream_read (unat size2) s3)"
    by (auto simp: read_data_def split: prod.splits)
  with stream_read_pending [of "unat size2" s3] have 4: "pending s4 \<le> pending s3" by simp
  from r5 read_char_pending [of s4 ch2] have 5: "pending s' \<le> pending s4" by auto
  from 1 2 3 4 5 show ?thesis by arith
qed

text \<open>
  The \<open>while (file.peek(), !file.eof())\<close> loop: \<open>peek\<close> sets \<open>eofbit\<close> when no byte is
  left, and changes nothing that \<open>eof()\<close> looks at when the stream has failed.
\<close>

function load_loop ::
  "(nat \<Rightarrow> char) \<Rightarrow> registry \<Rightarrow> istream \<Rightarrow> size_t \<Rightarrow> char \<Rightarrow> memory \<Rightarrow> error + memory" where
  "load_loop fresh m s sz ch mm =
     (if eof s \<or> unread s = [] then Inr mm
      else case read_entry fresh s sz ch of
             (ident, size2, data, s', ch') \<Rightarrow>
               (case store_entry m ident size2 data mm of
                  Inl e \<Rightarrow> Inl e
                | Inr mm' \<Rightarrow> load_loop fresh m s' size2 ch' mm'))"
  by pat_completeness auto
termination
  by (relation "measure (\<lambda>(fresh, m, s, sz, ch, mm). pending s)")
     (auto dest: read_entry_pending [OF sym])

declare load_loop.simps [simp del]

text \<open>
  A stream that failed to open has \<open>failbit\<close> but never \<open>eofbit\<close>, so the loop does not
  end: \<open>OpenFailed\<close>. Otherwise the loop starts on the whole file, with \<open>size\<close> and
  \<open>character\<close> holding what storage without a value holds.
\<close>

definition load_recipe :: "Recipe \<Rightarrow> world \<Rightarrow> error + bool \<times> Recipe \<times> world" where
  "load_recipe r w =
     (if \<not> m_init r then Inr (False, r, w)
      else case files w (get_path r) of
             None \<Rightarrow> Inl OpenFailed
           | Some bs \<Rightarrow>
               (case load_loop (unset_array (unset w)) (m_map r) \<lparr>unread = bs, eof = False\<rparr>
                       (unset_size (unset w)) (unset_character (unset w)) (mem w) of
                  Inl e \<Rightarrow> Inl e
                | Inr mm \<Rightarrow> Inr (True, r, w\<lparr>mem := mm\<rparr>)))"



section \<open>Callers: sequences of operations on one store\<close>

datatype op =
    Init | Stop | AddVariable string addr size_t | RemoveVariable string
  | LoadRecipe | SaveRecipe | IsInit | GetPath
  | SetName string | SetFolder string | SetExtension string

datatype ret = RBool bool | RString string | RVoid

fun call :: "op \<Rightarrow> Recipe \<Rightarrow> world \<Rightarrow> error + ret \<times> Recipe \<times> world" where
  "call Init r w = (case init r w of (b, r', w') \<Rightarrow> Inr (RBool b, r', w'))"
| "call Stop r w = Inr (RVoid, stop r, w)"
| "call (AddVariable ident var sz) r w =
     (case add_variable ident var sz r of (b, r') \<Rightarrow> Inr (RBool b, r', w))"
| "call (RemoveVariable ident) r w =
     (case remove_variable ident r of Inl e \<Rightarrow> Inl e | Inr (b, r') \<Rightarrow> Inr (RBool b, r', w))"
| "call LoadRecipe r w =
     (case load_recipe r w of Inl e \<Rightarrow> Inl e | Inr (b, r', w') \<Rightarrow> Inr (RBool b, r', w'))"
| "call SaveRecipe r w = (case save_recipe r w of (b, r', w') \<Rightarrow> Inr (RBool b, r', w'))"
| "call IsInit r w = Inr (RBool (is_init r), r, w)"
| "call GetPath r w = Inr (RString (get_path r), r, w)"
| "call (SetName s) r w = Inr (RVoid, set_name s r, w)"
| "call (SetFolder s) r w = Inr (RVoid, set_folder s r, w)"
| "call (SetExtension s) r w = Inr (RVoid, set_extension s r, w)"

text \<open>
  Running a sequence of calls: the values returned by the calls that completed, and the
  final store and world, or the error that ended the run.
\<close>

fun run :: "op list \<Rightarrow> Recipe \<Rightarrow> world \<Rightarrow> ret list \<times> (error + Recipe \<times> world)" where
  "run [] r w = ([], Inr (r, w))"
| "run (c # cs) r w =
     (case call c r w of
        Inl e \<Rightarrow> ([], Inl e)
      | Inr (v, r', w') \<Rightarrow> (case run cs r' w' of (vs, fin) \<Rightarrow> (v # vs, fin)))"

section \<open>The record format and the notions the properties are stated with\<close>

text \<open>
  The entry grammar of the file format:
  \<^verbatim>\<open>entry := idLen:u64 id:byte[idLen] valLen:u64 val:byte[valLen] pad?:byte\<close>, the padding
  byte (of any value) present iff \<open>idLen + valLen\<close> is odd. \<open>is_entry ident val bs\<close>: the
  bytes \<open>bs\<close> are one such entry, with identifier \<open>ident\<close> and value \<open>val\<close>. This is
  the format as the specification describes it; \<open>is_entry_saved\<close> below shows that the
  entries \<open>save_recipe\<close> writes are of this form.
\<close>

definition is_entry :: "string \<Rightarrow> string \<Rightarrow> string \<Rightarrow> bool" where
  "is_entry ident val bs =
     (let body = size_t_bytes (of_nat (length ident)) @ ident
                 @ size_t_bytes (of_nat (length val)) @ val
      in length ident < 2 ^ 64 \<and> length val < 2 ^ 64 \<and> take (length body) bs = body
         \<and> length bs = length body + (if odd (length ident + length val) then 1 else 0))"

definition entry_bytes :: "string \<Rightarrow> string \<Rightarrow> string \<Rightarrow> string" where
  "entry_bytes ident val pad =
     size_t_bytes (of_nat (length ident)) @ ident @ size_t_bytes (of_nat (length val)) @ val @ pad"

text \<open>
  A record: entries one after the other, with nothing before, between or after them. Each
  entry is given with its identifier and its value.
\<close>

definition is_record :: "(string \<times> string \<times> string) list \<Rightarrow> bool" where
  "is_record ents \<longleftrightarrow> (\<forall>(ident, val, e) \<in> set ents. is_entry ident val e)"

definition record_bytes :: "(string \<times> string \<times> string) list \<Rightarrow> string" where
  "record_bytes ents = concat (map (\<lambda>(ident, val, e). e) ents)"

text \<open>An entry as \<open>save_recipe\<close> writes it, with its identifier and its value.\<close>

definition saved_entry :: "memory \<Rightarrow> string \<times> RecipeItem \<Rightarrow> string \<times> string \<times> string" where
  "saved_entry m var =
     (fst var, read_bytes m (ptr (snd var)) (unat (item_size (snd var))), save_entry m var)"

text \<open>
  What loading one well-formed entry does to memory, read off \<open>store_entry\<close>.
\<close>

definition merge_entry :: "registry \<Rightarrow> string \<Rightarrow> string \<Rightarrow> memory \<Rightarrow> memory" where
  "merge_entry m ident val mm =
     (case map_of m ident of
        None \<Rightarrow> mm
      | Some item \<Rightarrow>
          if item_size item = of_nat (length val) then copy_bytes mm (ptr item) val else mm)"


text \<open>The bytes of a variable, and whether two variables share a byte.\<close>

definition in_region :: "RecipeItem \<Rightarrow> addr \<Rightarrow> bool" where
  "in_region item a \<longleftrightarrow> ptr item \<le> a \<and> a < ptr item + unat (item_size item)"

definition content :: "memory \<Rightarrow> RecipeItem \<Rightarrow> string" where
  "content m item = read_bytes m (ptr item) (unat (item_size item))"

definition overlap :: "RecipeItem \<Rightarrow> RecipeItem \<Rightarrow> bool" where
  "overlap x y \<longleftrightarrow>
     item_size x \<noteq> 0 \<and> item_size y \<noteq> 0
     \<and> ptr x < ptr y + unat (item_size y) \<and> ptr y < ptr x + unat (item_size x)"

text \<open>A string ends with exactly one \<open>/\<close>; a string begins with exactly one \<open>.\<close>.\<close>

definition ends_with_one_separator :: "string \<Rightarrow> bool" where
  "ends_with_one_separator s \<longleftrightarrow>
     s \<noteq> [] \<and> last s = CHR ''/'' \<and> (butlast s = [] \<or> last (butlast s) \<noteq> CHR ''/'')"

definition begins_with_one_dot :: "string \<Rightarrow> bool" where
  "begins_with_one_dot s \<longleftrightarrow>
     s \<noteq> [] \<and> hd s = CHR ''.'' \<and> (tl s = [] \<or> hd (tl s) \<noteq> CHR ''.'')"

section \<open>A store and a file to run the functions on\<close>

text \<open>
  An initialized store with a four-byte variable \<open>count\<close> at address 0 and a one-byte
  variable \<open>flags\<close> at address 8, and a world whose memory is zero and whose file
  \<open>out/test.rcp\<close> holds four entries: \<open>count\<close>, an identifier that is not registered,
  \<open>count\<close> again with a value of the wrong length, and \<open>flags\<close>. Storage without a
  value holds 3 for \<open>size\<close>, \<open>?\<close> for \<open>character\<close> and \<open>#\<close> in every element of a new
  array.
\<close>

definition example_store :: Recipe where
  "example_store =
     \<lparr>m_folder = ''out/'', m_extension = ''.rcp'', m_name = ''test'',
      m_map = [(''count'', \<lparr>ptr = 0, item_size = 4\<rparr>), (''flags'', \<lparr>ptr = 8, item_size = 1\<rparr>)],
      m_init = True\<rparr>"

definition example_record :: "(string \<times> string \<times> string) list" where
  "example_record =
     [(''count'', ''wxyz'', entry_bytes ''count'' ''wxyz'' ''!''),
      (''limit'', ''12'', entry_bytes ''limit'' ''12'' ''!''),
      (''count'', ''ab'', entry_bytes ''count'' ''ab'' ''!''),
      (''flags'', ''Y'', entry_bytes ''flags'' ''Y'' [])]"

definition example_world :: world where
  "example_world =
     \<lparr>files = [''out/test.rcp'' \<mapsto> record_bytes example_record],
      creatable = (\<lambda>p. False), mem = (\<lambda>a. CHR 0x00),
      unset = \<lparr>unset_size = 3, unset_character = CHR ''?'', unset_array = (\<lambda>i. CHR ''#'')\<rparr>\<rparr>"

text \<open>
  The same store with one byte at address 0 registered under two identifiers, and a file
  that holds an entry for the second one only.
\<close>

definition alias_store :: Recipe where
  "alias_store =
     example_store\<lparr>m_map := [(''a'', \<lparr>ptr = 0, item_size = 1\<rparr>), (''b'', \<lparr>ptr = 0, item_size = 1\<rparr>)]\<rparr>"


text \<open>
  A store with the same two identifiers and sizes, the variables one after the other at
  addresses 0 and 1, and a world where they hold \<open>A\<close> and \<open>B\<close>.
\<close>

definition apart_store :: Recipe where
  "apart_store =
     example_store\<lparr>m_map := [(''a'', \<lparr>ptr = 0, item_size = 1\<rparr>), (''b'', \<lparr>ptr = 1, item_size = 1\<rparr>)]\<rparr>"

definition apart_world :: world where
  "apart_world = example_world\<lparr>mem := (\<lambda>a. if a = 0 then CHR ''A'' else CHR ''B'')\<rparr>"

section \<open>Lemmas: the \<open>size_t\<close> encoding\<close>

lemma le_nat_le_bytes: "le_nat (le_bytes k n) = n mod 256 ^ k"
proof (induction k arbitrary: n)
  case 0
  show ?case by simp
next
  case (Suc k)
  have "n mod (256 * 256 ^ k) = 256 * (n div 256 mod 256 ^ k) + n mod 256"
    by (rule mod_mult2_eq)
  with Suc show ?case by simp
qed

lemma length_le_bytes: "length (le_bytes k n) = k"
  by (induction k arbitrary: n) auto

lemma length_size_t_bytes: "length (size_t_bytes n) = 8"
  by (simp add: size_t_bytes_def length_le_bytes)

lemma size_t_of_bytes_inverse: "size_t_of_bytes (size_t_bytes n) = n"
proof -
  have "unat n < 2 ^ 64" using unsigned_less [of n] by simp
  then have "unat n mod 256 ^ 8 = unat n" by simp
  then show ?thesis
    by (simp add: size_t_bytes_def size_t_of_bytes_def le_nat_le_bytes del: le_bytes.simps)
qed

lemma odd_size_t: "(n :: size_t) mod 2 \<noteq> 0 \<longleftrightarrow> odd (unat n)"
  by (metis even_iff_mod_2_eq_zero even_of_nat mod_by_0 unsigned_0 word_arith_nat_mod)

lemma odd_size_t_add: "odd (unat (a + b :: size_t)) \<longleftrightarrow> odd (unat a + unat b)"
proof -
  have "unat (a + b) = (unat a + unat b) mod 2 ^ 64"
    by (simp add: unat_word_ariths)
  moreover have "even ((unat a + unat b) mod 2 ^ 64) \<longleftrightarrow> even (unat a + unat b)"
    by (rule dvd_mod_iff) simp
  ultimately show ?thesis by simp
qed

lemma unat_of_nat_len: "n < 2 ^ 64 \<Longrightarrow> unat (of_nat n :: size_t) = n"
  by (simp add: unat_of_nat)

lemma num_bytes_odd: "((a + b :: size_t) mod 2 \<noteq> 0) = odd (unat a + unat b)"
  by (simp only: odd_size_t odd_size_t_add)

lemma even_unat_of_nat: "even (unat (of_nat n :: size_t)) \<longleftrightarrow> even n"
proof -
  have "unat (of_nat n :: size_t) = n mod 2 ^ 64" by (simp add: unat_of_nat)
  moreover have "even (n mod 2 ^ 64) \<longleftrightarrow> even n" by (rule dvd_mod_iff) simp
  ultimately show ?thesis by simp
qed

section \<open>Lemmas: reading what was written\<close>

lemma stream_read_append:
  "length a = n \<Longrightarrow> stream_read n \<lparr>unread = a @ b, eof = False\<rparr> = (a, \<lparr>unread = b, eof = False\<rparr>)"
  by (simp add: stream_read_def)

lemma read_size_append:
  "read_size \<lparr>unread = size_t_bytes x @ b, eof = False\<rparr> sz = (x, \<lparr>unread = b, eof = False\<rparr>)"
  by (simp add: read_size_def stream_read_append length_size_t_bytes size_t_of_bytes_inverse)

lemma read_char_Cons:
  "read_char \<lparr>unread = c # b, eof = False\<rparr> ch = (c, \<lparr>unread = b, eof = False\<rparr>)"
  by (simp add: read_char_def stream_read_def)

lemma read_char_end:
  "read_char \<lparr>unread = [], eof = False\<rparr> ch = (ch, \<lparr>unread = [], eof = True\<rparr>)"
  by (simp add: read_char_def stream_read_def)

lemma read_id_append:
  "read_id (length i) \<lparr>unread = i @ b, eof = False\<rparr> ch acc
     = (acc @ i, \<lparr>unread = b, eof = False\<rparr>, if i = [] then ch else last i)"
proof (induction i arbitrary: ch acc)
  case Nil
  show ?case by simp
next
  case (Cons c i)
  have "read_id (length (c # i)) \<lparr>unread = (c # i) @ b, eof = False\<rparr> ch acc
      = read_id (length i) \<lparr>unread = i @ b, eof = False\<rparr> c (acc @ [c])"
    by (simp add: read_char_Cons)
  then show ?case by (simp add: Cons.IH)
qed

lemma read_data_append:
  "read_data fresh (length v) \<lparr>unread = v @ b, eof = False\<rparr> = (v, \<lparr>unread = b, eof = False\<rparr>)"
  by (simp add: read_data_def stream_read_append)

lemma is_entryD:
  assumes "is_entry ident val e"
  shows "\<exists>pad. e = size_t_bytes (of_nat (length ident)) @ ident
                 @ size_t_bytes (of_nat (length val)) @ val @ pad
            \<and> length pad = (if odd (length ident + length val) then 1 else 0)"
proof -
  let ?body = "size_t_bytes (of_nat (length ident)) @ ident
                 @ size_t_bytes (of_nat (length val)) @ val"
  from assms have t: "take (length ?body) e = ?body"
    and l: "length e = length ?body + (if odd (length ident + length val) then 1 else 0)"
    by (simp_all add: is_entry_def Let_def)
  have "e = ?body @ drop (length ?body) e"
    using t append_take_drop_id [of "length ?body" e] by simp
  moreover have "length (drop (length ?body) e) = (if odd (length ident + length val) then 1 else 0)"
    using l by simp
  ultimately show ?thesis by (metis append.assoc)
qed

text \<open>
  Reading the identifier and the value of an entry, whatever follows the value: one byte
  is taken from what follows when the two lengths add up to an odd number.
\<close>

lemma read_entry_header:
  assumes li: "length ident < 2 ^ 64" and lv: "length val < 2 ^ 64"
  shows "read_entry fresh \<lparr>unread = size_t_bytes (of_nat (length ident)) @ ident
                     @ size_t_bytes (of_nat (length val)) @ val @ rest, eof = False\<rparr> sz ch
       = (ident, of_nat (length val), val,
          \<lparr>unread = (if odd (length ident + length val) then drop 1 rest else rest),
           eof = (odd (length ident + length val) \<and> rest = [])\<rparr>,
          if odd (length ident + length val) \<and> rest \<noteq> [] then hd rest
          else if ident = [] then ch else last ident)"
proof -
  let ?ch2 = "if ident = [] then ch else last ident"
  have r2: "read_id (unat (of_nat (length ident) :: size_t))
              \<lparr>unread = ident @ size_t_bytes (of_nat (length val)) @ val @ rest, eof = False\<rparr> ch []
     = (ident, \<lparr>unread = size_t_bytes (of_nat (length val)) @ val @ rest, eof = False\<rparr>, ?ch2)"
    using read_id_append [of ident _ ch "[]"] by (simp add: unat_of_nat_len [OF li])
  have r4: "read_data fresh (unat (of_nat (length val) :: size_t)) \<lparr>unread = val @ rest, eof = False\<rparr>
     = (val, \<lparr>unread = rest, eof = False\<rparr>)"
    using read_data_append [of fresh val rest] by (simp add: unat_of_nat_len [OF lv])
  have par: "((0 + of_nat (length ident) + of_nat (length val) :: size_t) mod 2 \<noteq> 0)
      = odd (length ident + length val)"
    using li lv by (simp only: add_0 num_bytes_odd unat_of_nat_len)
  have r5: "read_char \<lparr>unread = rest, eof = False\<rparr> ?ch2
      = (if rest \<noteq> [] then hd rest else ?ch2, \<lparr>unread = drop 1 rest, eof = (rest = [])\<rparr>)"
    by (cases rest) (simp_all add: read_char_Cons read_char_end)
  show ?thesis
  proof (cases "odd (length ident + length val)")
    case True
    show ?thesis
      unfolding read_entry_def
      by (simp only: read_size_append r2 r4 par r5 True prod.case Let_def if_True simp_thms)
  next
    case False
    show ?thesis
      unfolding read_entry_def
      by (simp only: read_size_append r2 r4 par False prod.case Let_def if_False simp_thms)
  qed
qed

lemma read_entry_is_entry:
  assumes "is_entry ident val e"
  shows "read_entry fresh \<lparr>unread = e @ rest, eof = False\<rparr> sz ch
       = (ident, of_nat (length val), val, \<lparr>unread = rest, eof = False\<rparr>,
          if odd (length ident + length val) then last e
          else if ident = [] then ch else last ident)"
proof -
  from assms have li: "length ident < 2 ^ 64" and lv: "length val < 2 ^ 64"
    by (simp_all add: is_entry_def Let_def)
  from is_entryD [OF assms] obtain pad where
    e: "e = size_t_bytes (of_nat (length ident)) @ ident
           @ size_t_bytes (of_nat (length val)) @ val @ pad"
    and p: "length pad = (if odd (length ident + length val) then 1 else 0)"
    by blast
  show ?thesis
  proof (cases "odd (length ident + length val)")
    case True
    with p obtain c where pad: "pad = [c]" by (cases pad) auto
    with e have l: "last e = c" by simp
    from read_entry_header [OF li lv, of fresh "c # rest" sz ch] True l show ?thesis
      unfolding e pad by simp
  next
    case False
    with p have pad: "pad = []" by simp
    from read_entry_header [OF li lv, of fresh rest sz ch] False show ?thesis
      unfolding e pad by simp
  qed
qed

lemma count_id_0: "count_id m ident = 0 \<longleftrightarrow> map_of m ident = None"
  by (induction m) (auto simp: count_id_def)

lemma map_of_erase: "map_of (erase m ident) = (map_of m)(ident := None)"
  by (induction m) (auto simp: erase_def)

lemma count_id_pos: "0 < count_id m ident \<longleftrightarrow> map_of m ident \<noteq> None"
  using count_id_0 [of m ident] by auto

lemma store_entry_merge:
  "store_entry m ident (of_nat (length val)) val mm = Inr (merge_entry m ident val mm)"
  by (auto simp: store_entry_def merge_entry_def index_map_def count_id_0 split: option.splits)

lemma is_entry_nonempty: "is_entry ident val e \<Longrightarrow> e \<noteq> []"
  by (auto simp: is_entry_def Let_def length_size_t_bytes)

lemma load_loop_done: "eof s \<or> unread s = [] \<Longrightarrow> load_loop fresh m s sz ch mm = Inr mm"
  by (subst load_loop.simps) simp

lemma load_loop_unfold:
  "\<not> eof s \<Longrightarrow> unread s \<noteq> [] \<Longrightarrow> load_loop fresh m s sz ch mm =
     (case read_entry fresh s sz ch of
        (ident, size2, data, s', ch') \<Rightarrow>
          (case store_entry m ident size2 data mm of
             Inl e \<Rightarrow> Inl e
           | Inr mm' \<Rightarrow> load_loop fresh m s' size2 ch' mm'))"
  by (subst load_loop.simps) simp

text \<open>One well-formed entry: the loop goes on behind it, with the entry merged.\<close>

lemma load_loop_entry:
  assumes "is_entry ident val e"
  shows "load_loop fresh m \<lparr>unread = e @ rest, eof = False\<rparr> sz ch mm
       = load_loop fresh m \<lparr>unread = rest, eof = False\<rparr> (of_nat (length val))
           (if odd (length ident + length val) then last e
            else if ident = [] then ch else last ident)
           (merge_entry m ident val mm)"
proof -
  have ne: "e @ rest \<noteq> []" using is_entry_nonempty [OF assms] by simp
  have "load_loop fresh m \<lparr>unread = e @ rest, eof = False\<rparr> sz ch mm =
     (case read_entry fresh \<lparr>unread = e @ rest, eof = False\<rparr> sz ch of
        (ident, size2, data, s', ch') \<Rightarrow>
          (case store_entry m ident size2 data mm of
             Inl e \<Rightarrow> Inl e
           | Inr mm' \<Rightarrow> load_loop fresh m s' size2 ch' mm'))"
    using ne by (intro load_loop_unfold) simp_all
  then show ?thesis
    by (simp only: read_entry_is_entry [OF assms] store_entry_merge sum.case prod.case)
qed

lemma load_loop_entries:
  assumes "is_record ents"
  shows "load_loop fresh m \<lparr>unread = record_bytes ents, eof = False\<rparr> sz ch mm
       = Inr (fold (\<lambda>(ident, val, e). merge_entry m ident val) ents mm)"
  using assms
proof (induction ents arbitrary: sz ch mm)
  case Nil
  show ?case by (simp add: load_loop_done record_bytes_def)
next
  case (Cons x ents)
  obtain ident val e where x: "x = (ident, val, e)" by (cases x)
  with Cons.prems have e: "is_entry ident val e" and r: "is_record ents"
    by (simp_all add: is_record_def)
  have "record_bytes (x # ents) = e @ record_bytes ents"
    by (simp add: x record_bytes_def)
  then show ?case
    by (simp only: load_loop_entry [OF e] Cons.IH [OF r]) (simp add: x)
qed

lemma is_entryI:
  assumes "length ident < 2 ^ 64" and "length val < 2 ^ 64"
    and "length pad = (if odd (length ident + length val) then 1 else 0)"
  shows "is_entry ident val (entry_bytes ident val pad)"
  using assms by (simp add: is_entry_def entry_bytes_def Let_def length_size_t_bytes)

lemma load_recipe_record:
  assumes "m_init r" and "is_record ents" and "files w (get_path r) = Some (record_bytes ents)"
  shows "load_recipe r w
       = Inr (True, r, w\<lparr>mem := fold (\<lambda>(ident, val, e). merge_entry (m_map r) ident val) ents (mem w)\<rparr>)"
  using assms by (simp add: load_recipe_def load_loop_entries)

lemma merge_entry_skip:
  assumes "length val < 2 ^ 64"
    and "map_of m ident = None
         \<or> (\<exists>item. map_of m ident = Some item \<and> unat (item_size item) \<noteq> length val)"
  shows "merge_entry m ident val mm = mm"
proof (cases "map_of m ident")
  case None
  then show ?thesis by (simp add: merge_entry_def)
next
  case (Some item)
  with assms(2) have "unat (item_size item) \<noteq> length val" by simp
  then have "item_size item \<noteq> of_nat (length val)"
    using unat_of_nat_len [OF assms(1)] by auto
  with Some show ?thesis by (simp add: merge_entry_def)
qed

lemma example_is_record:
  "is_record example_record"
  "is_record [(''count'', ''wxyz'', entry_bytes ''count'' ''wxyz'' ''!''),
      (''count'', ''ab'', entry_bytes ''count'' ''ab'' ''!''),
      (''flags'', ''Y'', entry_bytes ''flags'' ''Y'' [])]"
  by (simp_all add: is_record_def example_record_def is_entryI)

section \<open>Lemmas: memory, and what saving writes\<close>

lemma copy_bytes_apply:
  "copy_bytes m p cs a = (if p \<le> a \<and> a < p + length cs then cs ! (a - p) else m a)"
proof (induction cs arbitrary: m p)
  case Nil
  show ?case by auto
next
  case (Cons c cs)
  have ih: "copy_bytes (m(p := c)) (Suc p) cs a
      = (if Suc p \<le> a \<and> a < Suc p + length cs then cs ! (a - Suc p) else (m(p := c)) a)"
    by (rule Cons.IH)
  show ?case
    unfolding copy_bytes.simps ih by (auto simp: nth_Cons' Suc_diff_Suc)
qed

lemma length_content: "length (content m item) = unat (item_size item)"
  by (simp add: content_def read_bytes_def)

lemma content_nth: "i < unat (item_size item) \<Longrightarrow> content m item ! i = m (ptr item + i)"
  by (simp add: content_def read_bytes_def)


lemma save_entry_entry_bytes:
  "save_entry m (ident, item)
     = entry_bytes ident (content m item)
         (if odd (length ident + unat (item_size item)) then [padding] else [])"
proof -
  have "((of_nat (length ident) + item_size item :: size_t) mod 2 \<noteq> 0)
      = odd (length ident + unat (item_size item))"
    by (simp only: num_bytes_odd) (simp add: even_unat_of_nat)
  then show ?thesis
    by (simp only: save_entry_def Let_def entry_bytes_def length_content content_def [symmetric]
        fst_conv snd_conv of_nat_unat ucast_id)
qed

lemma is_entry_saved:
  assumes "length ident < 2 ^ 64"
  shows "is_entry ident (content m item) (save_entry m (ident, item))"
proof -
  have "unat (item_size item) < 2 ^ 64" using unsigned_less [of "item_size item"] by simp
  then show ?thesis
    unfolding save_entry_entry_bytes
    by (intro is_entryI assms) (simp_all add: length_content)
qed

lemma save_entries_record:
  "save_entries m reg = record_bytes (map (saved_entry m) reg)"
  by (induction reg) (simp_all add: record_bytes_def saved_entry_def)

lemma is_record_saved:
  assumes "\<forall>(ident, item) \<in> set reg. length ident < 2 ^ 64"
  shows "is_record (map (saved_entry m) reg)"
proof -
  have "is_entry ident (content m item) (save_entry m (ident, item))"
    if "(ident, item) \<in> set reg" for ident item
    using that assms by (intro is_entry_saved) auto
  then show ?thesis
    by (auto simp: is_record_def saved_entry_def content_def [symmetric])
qed

lemma merge_entry_apply:
  "merge_entry reg2 ident (content m1 item1) mm a =
     (case map_of reg2 ident of
        None \<Rightarrow> mm a
      | Some item2 \<Rightarrow>
          if item_size item2 = item_size item1 \<and> in_region item2 a
          then m1 (ptr item1 + (a - ptr item2)) else mm a)"
  by (auto simp: merge_entry_def copy_bytes_apply length_content in_region_def content_nth
      split: option.splits)

lemma fold_merge_relocated:
  fixes reg2 :: registry and m1 mm :: memory
  defines "f \<equiv> \<lambda>(ident, val, e). merge_entry reg2 ident val"
  shows "(\<exists>(ident, item1) \<in> set es. \<exists>item2.
            map_of reg2 ident = Some item2 \<and> item_size item2 = item_size item1
            \<and> in_region item2 a
            \<and> fold f (map (saved_entry m1) es) mm a = m1 (ptr item1 + (a - ptr item2)))
       \<or> (\<not> (\<exists>(ident, item1) \<in> set es. \<exists>item2.
              map_of reg2 ident = Some item2 \<and> item_size item2 = item_size item1
              \<and> in_region item2 a)
          \<and> fold f (map (saved_entry m1) es) mm a = mm a)"
proof (induction es arbitrary: mm)
  case Nil
  show ?case by simp
next
  case (Cons x es)
  obtain ident item1 where x: "x = (ident, item1)" by (cases x)
  let ?mm1 = "merge_entry reg2 ident (content m1 item1) mm"
  define R where "R = fold f (map (saved_entry m1) (x # es)) mm"
  have fo: "R = fold f (map (saved_entry m1) es) ?mm1"
    by (simp add: R_def x f_def saved_entry_def content_def)
  have "(\<exists>(ident, item1) \<in> set (x # es). \<exists>item2.
            map_of reg2 ident = Some item2 \<and> item_size item2 = item_size item1
            \<and> in_region item2 a \<and> R a = m1 (ptr item1 + (a - ptr item2)))
       \<or> (\<not> (\<exists>(ident, item1) \<in> set (x # es). \<exists>item2.
              map_of reg2 ident = Some item2 \<and> item_size item2 = item_size item1
              \<and> in_region item2 a)
          \<and> R a = mm a)"
    using Cons.IH [of ?mm1]
  proof
    assume "\<exists>(ident, item1) \<in> set es. \<exists>item2.
            map_of reg2 ident = Some item2 \<and> item_size item2 = item_size item1
            \<and> in_region item2 a
            \<and> fold f (map (saved_entry m1) es) ?mm1 a = m1 (ptr item1 + (a - ptr item2))"
    then show ?thesis unfolding fo by auto
  next
    assume r: "\<not> (\<exists>(ident, item1) \<in> set es. \<exists>item2.
              map_of reg2 ident = Some item2 \<and> item_size item2 = item_size item1
              \<and> in_region item2 a)
          \<and> fold f (map (saved_entry m1) es) ?mm1 a = ?mm1 a"
    then have Ra: "R a = ?mm1 a" unfolding fo by simp
    show ?thesis
    proof (cases "\<exists>item2. map_of reg2 ident = Some item2 \<and> item_size item2 = item_size item1
              \<and> in_region item2 a")
      case True
      then obtain item2 where i2: "map_of reg2 ident = Some item2"
        "item_size item2 = item_size item1" "in_region item2 a"
        by blast
      then have "?mm1 a = m1 (ptr item1 + (a - ptr item2))"
        by (simp add: merge_entry_apply)
      with Ra i2 show ?thesis unfolding x by auto
    next
      case False
      then have "?mm1 a = mm a"
        by (auto simp: merge_entry_apply split: option.splits)
      with Ra r False show ?thesis unfolding x by auto
    qed
  qed
  then show ?case unfolding R_def .
qed

lemma content_eqI:
  assumes "item_size x = item_size y"
    and "\<And>i. i < unat (item_size x) \<Longrightarrow> m (ptr x + i) = m' (ptr y + i)"
  shows "content m x = content m' y"
  using assms by (simp add: content_def read_bytes_def)

section \<open>Lemmas: what loading can change\<close>

lemma in_region_overlap: "in_region x a \<Longrightarrow> in_region y a \<Longrightarrow> overlap x y"
  by (auto simp: in_region_def overlap_def)










section \<open>Lemmas: the keys of the registry stay distinct\<close>

text \<open>
  The registry is an \<open>unordered_map\<close>, so its keys are distinct. In the model that is an
  invariant: both constructors establish it and every operation keeps it.
\<close>

lemma distinct_erase: "distinct (map fst m) \<Longrightarrow> distinct (map fst (erase m ident))"
  by (simp add: erase_def distinct_map_filter)

lemma constructors_keys_distinct:
  "distinct (map fst (m_map Recipe0))" "distinct (map fst (m_map (Recipe3 name folder extension)))"
  by (simp_all add: Recipe0_def Recipe3_def)

lemma call_keeps_keys_distinct:
  assumes "distinct (map fst (m_map r))" and "call c r w = Inr (v, r', w')"
  shows "distinct (map fst (m_map r'))"
proof (cases c)
  case Init
  with assms show ?thesis by (auto simp: init_def Let_def split: if_splits)
next
  case Stop
  with assms show ?thesis by (auto simp: stop_def)
next
  case (AddVariable ident var sz)
  with assms show ?thesis
    by (auto simp: add_variable_def Let_def count_id_0 map_of_eq_None_iff split: if_splits)
next
  case (RemoveVariable ident)
  with assms show ?thesis
    by (auto simp: remove_variable_def distinct_erase split: if_splits sum.splits)
next
  case LoadRecipe
  with assms show ?thesis
    by (auto simp: load_recipe_def split: if_splits option.splits sum.splits)
next
  case SaveRecipe
  with assms show ?thesis by (auto simp: save_recipe_def split: if_splits)
next
  case IsInit
  with assms show ?thesis by auto
next
  case GetPath
  with assms show ?thesis by auto
next
  case (SetName x)
  with assms show ?thesis by (auto simp: set_name_def stop_def)
next
  case (SetFolder x)
  with assms show ?thesis by (auto simp: set_folder_def stop_def)
next
  case (SetExtension x)
  with assms show ?thesis by (auto simp: set_extension_def stop_def)
qed

section \<open>Lemmas: a store that is not initialized\<close>

lemma remove_variable_absent:
  "map_of (m_map r) ident = None \<Longrightarrow> remove_variable ident r = Inr (False, r)"
  by (simp add: remove_variable_def count_id_0)

lemma remove_variable_present:
  "map_of (m_map r) ident \<noteq> None \<Longrightarrow>
   remove_variable ident r = Inr (True, r\<lparr>m_map := erase (m_map r) ident\<rparr>)"
  by (auto simp: remove_variable_def count_id_0 index_map_def)

lemma call_uninit:
  assumes "\<not> m_init r"
  shows "\<exists>v r' w'. call c r w = Inr (v, r', w')
           \<and> (m_init r' \<longrightarrow> c = Init \<and> v = RBool True)
           \<and> (c = SaveRecipe \<or> c = LoadRecipe \<longrightarrow> v = RBool False)"
proof (cases c)
  case Init
  then show ?thesis using assms by (simp add: init_def Let_def)
next
  case Stop
  then show ?thesis by (simp add: stop_def)
next
  case (AddVariable ident var sz)
  then show ?thesis using assms by (simp add: add_variable_def Let_def)
next
  case (RemoveVariable ident)
  show ?thesis
  proof (cases "map_of (m_map r) ident")
    case None
    then show ?thesis using assms RemoveVariable by (simp add: remove_variable_absent)
  next
    case (Some item)
    then show ?thesis using assms RemoveVariable by (simp add: remove_variable_present)
  qed
next
  case LoadRecipe
  then show ?thesis using assms by (simp add: load_recipe_def)
next
  case SaveRecipe
  then show ?thesis using assms by (simp add: save_recipe_def)
next
  case IsInit
  then show ?thesis using assms by simp
next
  case GetPath
  then show ?thesis using assms by simp
next
  case (SetName s)
  then show ?thesis by (simp add: set_name_def stop_def)
next
  case (SetFolder s)
  then show ?thesis by (simp add: set_folder_def stop_def)
next
  case (SetExtension s)
  then show ?thesis by (simp add: set_extension_def stop_def)
qed

lemma run_uninit:
  assumes "\<not> m_init r" and "run cs r w = (vs, fin)"
    and "\<forall>i < length vs. cs ! i = Init \<longrightarrow> vs ! i = RBool False"
  shows "length vs = length cs \<and> (\<exists>r' w'. fin = Inr (r', w') \<and> \<not> m_init r')
       \<and> (\<forall>i < length cs. cs ! i = SaveRecipe \<or> cs ! i = LoadRecipe \<longrightarrow> vs ! i = RBool False)"
  using assms
proof (induction cs arbitrary: r w vs fin)
  case Nil
  then show ?case by auto
next
  case (Cons c cs)
  from call_uninit [OF Cons.prems(1), of c w] obtain v r' w' where
    c: "call c r w = Inr (v, r', w')"
    and i: "m_init r' \<longrightarrow> c = Init \<and> v = RBool True"
    and s: "c = SaveRecipe \<or> c = LoadRecipe \<longrightarrow> v = RBool False"
    by blast
  obtain vs' fin' where r: "run cs r' w' = (vs', fin')" by (cases "run cs r' w'")
  from Cons.prems(2) c r have vs: "vs = v # vs'" and fin: "fin = fin'" by simp_all
  from Cons.prems(3) vs have h0: "c = Init \<longrightarrow> v = RBool False" by auto
  with i have ni: "\<not> m_init r'" by auto
  from Cons.prems(3) vs have h: "\<forall>i < length vs'. cs ! i = Init \<longrightarrow> vs' ! i = RBool False"
    by fastforce
  from Cons.IH [OF ni r h] have
    l: "length vs' = length cs" and f: "\<exists>r'' w''. fin' = Inr (r'', w'') \<and> \<not> m_init r''"
    and a: "\<forall>i < length cs. cs ! i = SaveRecipe \<or> cs ! i = LoadRecipe \<longrightarrow> vs' ! i = RBool False"
    by blast+
  have "\<forall>i < length (c # cs). (c # cs) ! i = SaveRecipe \<or> (c # cs) ! i = LoadRecipe
          \<longrightarrow> vs ! i = RBool False"
  proof (intro allI impI)
    fix i assume "i < length (c # cs)"
      and "(c # cs) ! i = SaveRecipe \<or> (c # cs) ! i = LoadRecipe"
    then show "vs ! i = RBool False"
      using s a vs by (cases i) auto
  qed
  with l f vs fin show ?case by simp
qed

section \<open>Properties of the lifecycle, the path and the registry\<close>

text \<open>
  C4 (precondition guard). While the initialized flag is false, \<open>save_recipe\<close> and
  \<open>load_recipe\<close> both return false at once: the files, the registry, the other fields of
  the store and the memory of every variable are what they were.
\<close>

theorem uninitialized_guard:
  assumes "\<not> m_init r"
  shows "save_recipe r w = (False, r, w) \<and> load_recipe r w = Inr (False, r, w)"
  using assms by (simp add: save_recipe_def load_recipe_def)

theorem uninitialized_guard_witness:
  "\<not> m_init (Recipe3 ''count'' ''out/'' ''.rcp'')
   \<and> save_recipe (Recipe3 ''count'' ''out/'' ''.rcp'')
        \<lparr>files = Map.empty, creatable = (\<lambda>p. True), mem = (\<lambda>a. CHR 0x2A),
          unset = unset example_world\<rparr>
      = (False, Recipe3 ''count'' ''out/'' ''.rcp'',
         \<lparr>files = Map.empty, creatable = (\<lambda>p. True), mem = (\<lambda>a. CHR 0x2A),
          unset = unset example_world\<rparr>)
   \<and> load_recipe (Recipe3 ''count'' ''out/'' ''.rcp'')
        \<lparr>files = Map.empty, creatable = (\<lambda>p. True), mem = (\<lambda>a. CHR 0x2A),
          unset = unset example_world\<rparr>
      = Inr (False, Recipe3 ''count'' ''out/'' ''.rcp'',
         \<lparr>files = Map.empty, creatable = (\<lambda>p. True), mem = (\<lambda>a. CHR 0x2A),
          unset = unset example_world\<rparr>)"
proof -
  have h: "\<not> m_init (Recipe3 ''count'' ''out/'' ''.rcp'')"
    by (simp add: Recipe3_def)
  from uninitialized_guard [OF h] h show ?thesis by simp
qed

text \<open>
  C5 (reinitialization). After \<open>set_name\<close>, \<open>set_folder\<close> or \<open>set_extension\<close>, with any
  argument and from any store (an initialized one too), \<open>is_init\<close> is false and
  \<open>save_recipe\<close> and \<open>load_recipe\<close> return false. This lasts through every sequence of
  calls in which no \<open>init\<close> returned true: the run completes, each \<open>save_recipe\<close> and
  \<open>load_recipe\<close> in it returns false, and the flag is false at its end. An \<open>init\<close> that
  returns true is what sets the flag again.
\<close>

theorem reinit_required:
  assumes "r1 = set_name a r \<or> r1 = set_folder a r \<or> r1 = set_extension a r"
    and "run cs r1 w = (vs, fin)"
    and "\<forall>i < length vs. cs ! i = Init \<longrightarrow> vs ! i = RBool False"
  shows "\<not> is_init r1
       \<and> save_recipe r1 w = (False, r1, w) \<and> load_recipe r1 w = Inr (False, r1, w)
       \<and> is_init (fst (snd (init r1 w))) = fst (init r1 w)
       \<and> length vs = length cs \<and> (\<exists>r' w'. fin = Inr (r', w') \<and> \<not> is_init r')
       \<and> (\<forall>i < length cs. cs ! i = SaveRecipe \<or> cs ! i = LoadRecipe \<longrightarrow> vs ! i = RBool False)"
proof -
  from assms(1) have n: "\<not> m_init r1"
    by (auto simp: set_name_def set_folder_def set_extension_def stop_def)
  then have i: "is_init (fst (snd (init r1 w))) = fst (init r1 w)"
    by (simp add: init_def is_init_def Let_def)
  from run_uninit [OF n assms(2) assms(3)] n i show ?thesis
    by (simp add: is_init_def save_recipe_def load_recipe_def)
qed

theorem reinit_required_witness:
  "is_init example_store
   \<and> \<not> is_init (set_name ''other'' example_store)
   \<and> run [SaveRecipe, Init, LoadRecipe, IsInit] (set_name ''other'' example_store) example_world
      = ([RBool False, RBool False, RBool False, RBool False],
         Inr (set_name ''other'' example_store, example_world))"
proof -
  let ?r1 = "set_name ''other'' example_store"
  let ?cs = "[SaveRecipe, Init, LoadRecipe, IsInit]"
  let ?vs = "[RBool False, RBool False, RBool False, RBool False]"
  have a: "?r1 = set_name ''other'' example_store \<or> ?r1 = set_folder ''other'' example_store
         \<or> ?r1 = set_extension ''other'' example_store"
    by simp
  have b: "run ?cs ?r1 example_world = (?vs, Inr (?r1, example_world))"
    by (simp add: set_name_def stop_def example_store_def example_world_def save_recipe_def
        load_recipe_def init_def get_path_def is_init_def Let_def)
  have c: "\<forall>i < length ?vs. ?cs ! i = Init \<longrightarrow> ?vs ! i = RBool False"
    by (simp add: nth_Cons')
  from reinit_required [OF a b c] have "\<not> is_init ?r1" by blast
  moreover have "is_init example_store" by (simp add: is_init_def example_store_def)
  ultimately show ?thesis using b by blast
qed

text \<open>
  C7 as stated fails: \<open>set_folder\<close> only appends a separator when the last character is
  not one, so a folder given with two trailing separators keeps both.
\<close>

theorem set_folder_two_separators:
  "''a//'' \<noteq> [] \<and> m_folder (set_folder ''a//'' Recipe0) = ''a//''
   \<and> \<not> ends_with_one_separator (m_folder (set_folder ''a//'' Recipe0))"
  by (simp add: set_folder_def stop_def Recipe0_def ends_with_one_separator_def)

text \<open>
  C7, amended (path normalization). \<open>set_folder\<close> stores the string followed by one \<open>/\<close>
  when the string is non-empty and does not end with \<open>/\<close>, and the string itself
  otherwise; so a non-empty folder ends with \<open>/\<close>, and with exactly one \<open>/\<close> unless the
  string given already ends with two. \<open>set_extension\<close> does the same with a leading
  \<open>.\<close>. \<open>get_path\<close> is folder, name and extension concatenated.
\<close>

theorem path_normalization:
  "m_folder (set_folder folder r)
     = (if folder = [] \<or> last folder = CHR ''/'' then folder else folder @ ''/'')
   \<and> (folder \<noteq> [] \<longrightarrow> last (m_folder (set_folder folder r)) = CHR ''/'')
   \<and> (folder \<noteq> [] \<and> \<not> (last folder = CHR ''/'' \<and> butlast folder \<noteq> []
                          \<and> last (butlast folder) = CHR ''/'')
        \<longrightarrow> ends_with_one_separator (m_folder (set_folder folder r)))
   \<and> m_extension (set_extension extension r)
       = (if extension = [] \<or> hd extension = CHR ''.'' then extension else ''.'' @ extension)
   \<and> (extension \<noteq> [] \<longrightarrow> hd (m_extension (set_extension extension r)) = CHR ''.'')
   \<and> (extension \<noteq> [] \<and> \<not> (hd extension = CHR ''.'' \<and> tl extension \<noteq> []
                             \<and> hd (tl extension) = CHR ''.'')
        \<longrightarrow> begins_with_one_dot (m_extension (set_extension extension r)))
   \<and> get_path r = m_folder r @ m_name r @ m_extension r"
proof -
  have f: "m_folder (set_folder folder r)
     = (if folder = [] \<or> last folder = CHR ''/'' then folder else folder @ ''/'')"
    by (simp add: set_folder_def stop_def)
  have e: "m_extension (set_extension extension r)
       = (if extension = [] \<or> hd extension = CHR ''.'' then extension else ''.'' @ extension)"
    by (simp add: set_extension_def stop_def)
  have f1: "folder \<noteq> [] \<longrightarrow> last (m_folder (set_folder folder r)) = CHR ''/''"
    by (simp add: f)
  have f2: "folder \<noteq> [] \<and> \<not> (last folder = CHR ''/'' \<and> butlast folder \<noteq> []
                          \<and> last (butlast folder) = CHR ''/'')
        \<longrightarrow> ends_with_one_separator (m_folder (set_folder folder r))"
    by (auto simp: f ends_with_one_separator_def butlast_append)
  have e1: "extension \<noteq> [] \<longrightarrow> hd (m_extension (set_extension extension r)) = CHR ''.''"
    by (simp add: e)
  have e2: "extension \<noteq> [] \<and> \<not> (hd extension = CHR ''.'' \<and> tl extension \<noteq> []
                             \<and> hd (tl extension) = CHR ''.'')
        \<longrightarrow> begins_with_one_dot (m_extension (set_extension extension r))"
    by (auto simp: e begins_with_one_dot_def)
  have p: "get_path r = m_folder r @ m_name r @ m_extension r"
    by (simp add: get_path_def)
  from f f1 f2 e e1 e2 p show ?thesis by blast
qed

theorem path_normalization_witness:
  "m_folder (set_folder ''out/recipes'' Recipe0) = ''out/recipes/''
   \<and> ends_with_one_separator (m_folder (set_folder ''out/recipes'' Recipe0))
   \<and> m_extension (set_extension ''rcp'' Recipe0) = ''.rcp''
   \<and> begins_with_one_dot (m_extension (set_extension ''rcp'' Recipe0))
   \<and> get_path (set_name ''test_recipe'' (set_extension ''rcp'' (set_folder ''out/recipes'' Recipe0)))
       = ''out/recipes/test_recipe.rcp''"
proof -
  note pn = path_normalization [of "''out/recipes''" Recipe0 "''rcp''"]
  have hf: "''out/recipes'' \<noteq> [] \<and> \<not> (last ''out/recipes'' = CHR ''/'' \<and> butlast ''out/recipes'' \<noteq> []
                          \<and> last (butlast ''out/recipes'') = CHR ''/'')"
    by simp
  have he: "''rcp'' \<noteq> [] \<and> \<not> (hd ''rcp'' = CHR ''.'' \<and> tl ''rcp'' \<noteq> []
                             \<and> hd (tl ''rcp'') = CHR ''.'')"
    by simp
  from pn have 1: "m_folder (set_folder ''out/recipes'' Recipe0) = ''out/recipes/''"
    by simp
  from pn hf have 2: "ends_with_one_separator (m_folder (set_folder ''out/recipes'' Recipe0))"
    by blast
  from pn have 3: "m_extension (set_extension ''rcp'' Recipe0) = ''.rcp''"
    by simp
  from pn he have 4: "begins_with_one_dot (m_extension (set_extension ''rcp'' Recipe0))"
    by blast
  have 5: "get_path (set_name ''test_recipe'' (set_extension ''rcp'' (set_folder ''out/recipes'' Recipe0)))
       = ''out/recipes/test_recipe.rcp''"
    by (simp add: get_path_def set_name_def set_extension_def set_folder_def stop_def Recipe0_def)
  from 1 2 3 4 5 show ?thesis by blast
qed

text \<open>
  C9. The three-argument constructor stores name, folder and extension as they are
  given, so its path is their plain concatenation; with a folder that lacks the trailing
  separator and an extension that lacks the leading dot, the path differs from the one
  of a store that was given the same strings through the setters.
\<close>

theorem constructor_stores_verbatim:
  "m_name (Recipe3 name folder extension) = name
   \<and> m_folder (Recipe3 name folder extension) = folder
   \<and> m_extension (Recipe3 name folder extension) = extension
   \<and> get_path (Recipe3 name folder extension) = folder @ name @ extension
   \<and> get_path (Recipe3 ''r'' ''dir'' ''rcp'') = ''dirrrcp''
   \<and> get_path (set_extension ''rcp'' (set_folder ''dir'' (set_name ''r'' Recipe0))) = ''dir/r.rcp''
   \<and> get_path (Recipe3 ''r'' ''dir'' ''rcp'')
       \<noteq> get_path (set_extension ''rcp'' (set_folder ''dir'' (set_name ''r'' Recipe0)))"
  by (simp add: Recipe3_def Recipe0_def get_path_def set_extension_def set_folder_def
      set_name_def stop_def)

text \<open>
  C8 (registry add/remove). \<open>add_variable\<close> returns false exactly when the identifier
  is already registered, and then the store is unchanged; otherwise it returns true and
  the registry has the new entry and all the old ones. \<open>remove_variable\<close> returns false
  exactly when the identifier is not registered, leaving the store unchanged; otherwise
  it returns true and the entry is gone. No other field changes.
\<close>

theorem registry_add_remove:
  "(fst (add_variable ident var sz r) = False \<longleftrightarrow> map_of (m_map r) ident \<noteq> None)
   \<and> (map_of (m_map r) ident \<noteq> None \<longrightarrow> snd (add_variable ident var sz r) = r)
   \<and> (map_of (m_map r) ident = None \<longrightarrow>
        map_of (m_map (snd (add_variable ident var sz r)))
          = (map_of (m_map r))(ident \<mapsto> \<lparr>ptr = var, item_size = sz\<rparr>)
        \<and> set (m_map (snd (add_variable ident var sz r)))
          = insert (ident, \<lparr>ptr = var, item_size = sz\<rparr>) (set (m_map r))
        \<and> (snd (add_variable ident var sz r))\<lparr>m_map := m_map r\<rparr> = r)
   \<and> ((\<exists>r'. remove_variable ident r = Inr (False, r')) \<longleftrightarrow> map_of (m_map r) ident = None)
   \<and> (map_of (m_map r) ident = None \<longrightarrow> remove_variable ident r = Inr (False, r))
   \<and> (map_of (m_map r) ident \<noteq> None \<longrightarrow>
        (\<exists>r'. remove_variable ident r = Inr (True, r')
           \<and> map_of (m_map r') = (map_of (m_map r))(ident := None)
           \<and> set (m_map r') = {p \<in> set (m_map r). fst p \<noteq> ident}
           \<and> r'\<lparr>m_map := m_map r\<rparr> = r))"
proof (cases "map_of (m_map r) ident")
  case None
  then have c: "count_id (m_map r) ident = 0" by (simp add: count_id_0)
  have a: "add_variable ident var sz r
      = (True, r\<lparr>m_map := (ident, \<lparr>ptr = var, item_size = sz\<rparr>) # m_map r\<rparr>)"
    by (simp add: add_variable_def c Let_def)
  have d: "remove_variable ident r = Inr (False, r)"
    by (simp add: remove_variable_def c)
  show ?thesis
    by (simp add: a d None)
next
  case (Some item)
  then have c: "count_id (m_map r) ident > 0" by (simp add: count_id_pos)
  then have c': "count_id (m_map r) ident \<noteq> 0" by simp
  have a: "add_variable ident var sz r = (False, r)"
    by (simp add: add_variable_def c)
  have d: "remove_variable ident r = Inr (True, r\<lparr>m_map := erase (m_map r) ident\<rparr>)"
    by (simp add: remove_variable_def c' index_map_def Some)
  have s: "set (erase (m_map r) ident) = {p \<in> set (m_map r). fst p \<noteq> ident}"
    by (auto simp: erase_def)
  show ?thesis
    by (simp add: a d Some map_of_erase s)
qed

theorem registry_add_remove_witness:
  "add_variable ''count'' 16 4 Recipe0
     = (True, Recipe0\<lparr>m_map := [(''count'', \<lparr>ptr = 16, item_size = 4\<rparr>)]\<rparr>)
   \<and> add_variable ''count'' 32 8 (Recipe0\<lparr>m_map := [(''count'', \<lparr>ptr = 16, item_size = 4\<rparr>)]\<rparr>)
     = (False, Recipe0\<lparr>m_map := [(''count'', \<lparr>ptr = 16, item_size = 4\<rparr>)]\<rparr>)
   \<and> remove_variable ''count'' Recipe0 = Inr (False, Recipe0)
   \<and> remove_variable ''count'' (Recipe0\<lparr>m_map := [(''count'', \<lparr>ptr = 16, item_size = 4\<rparr>)]\<rparr>)
     = Inr (True, Recipe0)"
proof -
  let ?r = "Recipe0\<lparr>m_map := [(''count'', \<lparr>ptr = 16, item_size = 4\<rparr>)]\<rparr>"
  have a0: "map_of (m_map Recipe0) ''count'' = None"
    by (simp add: Recipe0_def)
  have a1: "map_of (m_map ?r) ''count'' \<noteq> None"
    by simp
  have 1: "fst (add_variable ''count'' 16 4 Recipe0) = True"
    using registry_add_remove [of "''count''" 16 4 Recipe0] a0 by blast
  have 2: "snd (add_variable ''count'' 32 8 ?r) = ?r \<and> fst (add_variable ''count'' 32 8 ?r) = False"
    using registry_add_remove [of "''count''" 32 8 ?r] a1 by blast
  have 3: "remove_variable ''count'' Recipe0 = Inr (False, Recipe0)"
    using registry_add_remove [of "''count''" 16 4 Recipe0] a0 by blast
  have "\<exists>r'. remove_variable ''count'' ?r = Inr (True, r')"
    using registry_add_remove [of "''count''" 32 8 ?r] a1 by blast
  then have 4: "remove_variable ''count'' ?r = Inr (True, Recipe0)"
    by (auto simp: remove_variable_def erase_def Recipe0_def split: if_splits sum.splits)
  have 5: "snd (add_variable ''count'' 16 4 Recipe0) = ?r"
    by (simp add: add_variable_def count_id_def Recipe0_def)
  from 1 5 have r1: "add_variable ''count'' 16 4 Recipe0 = (True, ?r)"
    by (simp add: prod_eq_iff)
  from 2 have r2: "add_variable ''count'' 32 8 ?r = (False, ?r)"
    by (simp add: prod_eq_iff)
  from r1 r2 3 4 show ?thesis by blast
qed

text \<open>
  C10. Nothing checks that an identifier is non-empty: on a store with no entry under
  the empty string, \<open>add_variable\<close> with the empty string returns true and registers the
  variable under it; and \<open>save_recipe\<close> writes an entry registered under the empty string
  in its place among the others, as the identifier length 0, no identifier bytes, the
  value length, the value, and the padding byte when the value length is odd.
\<close>

theorem empty_identifier_saved:
  "(map_of (m_map r) [] = None \<longrightarrow>
      (\<exists>r'. add_variable [] var sz r = (True, r')
           \<and> map_of (m_map r') [] = Some \<lparr>ptr = var, item_size = sz\<rparr>
           \<and> ([], \<lparr>ptr = var, item_size = sz\<rparr>) \<in> set (m_map r')))
   \<and> (m_init r2 \<and> m_map r2 = before @ ([], item) # after \<longrightarrow>
        save_recipe r2 w
          = (True, r2,
             w\<lparr>files := (files w)(get_path r2 \<mapsto>
                  save_entries (mem w) before
                  @ (size_t_bytes 0 @ size_t_bytes (item_size item) @ content (mem w) item
                     @ (if odd (unat (item_size item)) then [padding] else []))
                  @ save_entries (mem w) after)\<rparr>))"
proof -
  have 1: "\<exists>r'. add_variable [] var sz r = (True, r')
           \<and> map_of (m_map r') [] = Some \<lparr>ptr = var, item_size = sz\<rparr>
           \<and> ([], \<lparr>ptr = var, item_size = sz\<rparr>) \<in> set (m_map r')"
    if "map_of (m_map r) [] = None"
    using that by (simp add: add_variable_def count_id_0 Let_def)
  have app: "save_entries m (xs @ ys) = save_entries m xs @ save_entries m ys" for m xs ys
    by (induction xs) simp_all
  have e: "save_entry (mem w) ([], item)
      = size_t_bytes 0 @ size_t_bytes (item_size item) @ content (mem w) item
        @ (if odd (unat (item_size item)) then [padding] else [])"
    by (simp add: save_entry_entry_bytes entry_bytes_def length_content)
  have 2: "save_recipe r2 w
          = (True, r2,
             w\<lparr>files := (files w)(get_path r2 \<mapsto>
                  save_entries (mem w) before
                  @ (size_t_bytes 0 @ size_t_bytes (item_size item) @ content (mem w) item
                     @ (if odd (unat (item_size item)) then [padding] else []))
                  @ save_entries (mem w) after)\<rparr>)"
    if "m_init r2" and "m_map r2 = before @ ([], item) # after"
    using that by (simp add: save_recipe_def app e)
  from 1 2 show ?thesis by blast
qed

theorem empty_identifier_saved_witness:
  "add_variable [] 16 3 example_store
     = (True, example_store\<lparr>m_map := ([], \<lparr>ptr = 16, item_size = 3\<rparr>) # m_map example_store\<rparr>)
   \<and> save_recipe (example_store\<lparr>m_map := ([], \<lparr>ptr = 16, item_size = 3\<rparr>) # m_map example_store\<rparr>)
        example_world
     = (True, example_store\<lparr>m_map := ([], \<lparr>ptr = 16, item_size = 3\<rparr>) # m_map example_store\<rparr>,
        example_world\<lparr>files := (files example_world)(''out/test.rcp'' \<mapsto>
           [CHR 0x00, CHR 0x00, CHR 0x00, CHR 0x00, CHR 0x00, CHR 0x00, CHR 0x00, CHR 0x00,
            CHR 0x03, CHR 0x00, CHR 0x00, CHR 0x00, CHR 0x00, CHR 0x00, CHR 0x00, CHR 0x00,
            CHR 0x00, CHR 0x00, CHR 0x00, CHR 0x00]
           @ save_entries (mem example_world) (m_map example_store))\<rparr>)"
proof -
  let ?r2 = "example_store\<lparr>m_map := ([], \<lparr>ptr = 16, item_size = 3\<rparr>) # m_map example_store\<rparr>"
  have a: "map_of (m_map example_store) [] = None"
    by (simp add: example_store_def)
  from empty_identifier_saved [of example_store 16 3] a
  have "\<exists>r'. add_variable [] 16 3 example_store = (True, r')"
    by blast
  then have 1: "add_variable [] 16 3 example_store = (True, ?r2)"
    by (auto simp: add_variable_def Let_def split: if_splits)
  have b: "m_init ?r2 \<and> m_map ?r2 = [] @ ([], \<lparr>ptr = 16, item_size = 3\<rparr>) # m_map example_store"
    by (simp add: example_store_def)
  have c: "content (mem example_world) \<lparr>ptr = 16, item_size = 3\<rparr> = [CHR 0x00, CHR 0x00, CHR 0x00]"
    by (simp add: content_def read_bytes_def example_world_def upt_rec)
  have p: "get_path ?r2 = ''out/test.rcp''"
    by (simp add: get_path_def example_store_def)
  have b0: "size_t_bytes 0
      = [CHR 0x00, CHR 0x00, CHR 0x00, CHR 0x00, CHR 0x00, CHR 0x00, CHR 0x00, CHR 0x00]"
    and b3: "size_t_bytes 3
      = [CHR 0x03, CHR 0x00, CHR 0x00, CHR 0x00, CHR 0x00, CHR 0x00, CHR 0x00, CHR 0x00]"
    by code_simp+
  from empty_identifier_saved [of _ _ _ ?r2 "[]" "\<lparr>ptr = 16, item_size = 3\<rparr>" "m_map example_store" example_world] b
  have 2: "save_recipe ?r2 example_world
     = (True, ?r2,
        example_world\<lparr>files := (files example_world)(''out/test.rcp'' \<mapsto>
           [CHR 0x00, CHR 0x00, CHR 0x00, CHR 0x00, CHR 0x00, CHR 0x00, CHR 0x00, CHR 0x00,
            CHR 0x03, CHR 0x00, CHR 0x00, CHR 0x00, CHR 0x00, CHR 0x00, CHR 0x00, CHR 0x00,
            CHR 0x00, CHR 0x00, CHR 0x00, CHR 0x00]
           @ save_entries (mem example_world) (m_map example_store))\<rparr>)"
    by (simp add: c p b0 b3 padding_def)
  from 1 2 show ?thesis by blast
qed

section \<open>Properties of the record codec\<close>

text \<open>
  C3 (padding). The file that \<open>save_recipe\<close> writes is, entry after entry in the order of
  the registry: the identifier length, the identifier, the value length and the value,
  followed by exactly one padding byte when identifier length plus value length is odd
  and by nothing when it is even (the sum wraps in \<open>size_t\<close>, which keeps its parity).
  When loading, after the value of an entry, the loop takes exactly one byte (of any
  value) from what follows when the sum is odd and none when it is even, and goes on
  from there; so \<open>load_recipe\<close> loads a file that starts with an entry padded in this
  way as that entry followed by the rest of the file.
\<close>

theorem padding_parity:
  "(m_init r \<longrightarrow>
      save_recipe r w
        = (True, r,
           w\<lparr>files := (files w)(get_path r \<mapsto>
                concat (map (\<lambda>(ident, item).
                               size_t_bytes (of_nat (length ident)) @ ident
                               @ size_t_bytes (item_size item) @ content (mem w) item
                               @ (if odd (length ident + unat (item_size item))
                                  then [padding] else []))
                            (m_map r)))\<rparr>))
   \<and> (length ident < 2 ^ 64 \<and> length val < 2 ^ 64 \<longrightarrow>
        load_loop fresh m
          \<lparr>unread = size_t_bytes (of_nat (length ident)) @ ident
                    @ size_t_bytes (of_nat (length val)) @ val @ rest, eof = False\<rparr> sz ch mm
        = load_loop fresh m
            \<lparr>unread = (if odd (length ident + length val) then drop 1 rest else rest),
             eof = (odd (length ident + length val) \<and> rest = [])\<rparr>
            (of_nat (length val))
            (if odd (length ident + length val) \<and> rest \<noteq> [] then hd rest
             else if ident = [] then ch else last ident)
            (merge_entry m ident val mm))
   \<and> (m_init r \<and> length ident < 2 ^ 64 \<and> length val < 2 ^ 64 \<and> is_record ents
        \<and> length pad = (if odd (length ident + length val) then 1 else 0)
        \<and> files w (get_path r)
            = Some (size_t_bytes (of_nat (length ident)) @ ident
                    @ size_t_bytes (of_nat (length val)) @ val @ pad @ record_bytes ents) \<longrightarrow>
        load_recipe r w
          = Inr (True, r,
                 w\<lparr>mem := fold (\<lambda>(i, v, e). merge_entry (m_map r) i v) ents
                              (merge_entry (m_map r) ident val (mem w))\<rparr>))"
proof -
  have e: "save_entry (mem w) x
      = (case x of (ident, item) \<Rightarrow>
           size_t_bytes (of_nat (length ident)) @ ident
           @ size_t_bytes (item_size item) @ content (mem w) item
           @ (if odd (length ident + unat (item_size item)) then [padding] else []))" for x
    by (cases x) (simp add: save_entry_entry_bytes entry_bytes_def length_content)
  have "save_entries (mem w) reg
      = concat (map (\<lambda>(ident, item).
                       size_t_bytes (of_nat (length ident)) @ ident
                       @ size_t_bytes (item_size item) @ content (mem w) item
                       @ (if odd (length ident + unat (item_size item)) then [padding] else []))
                    reg)" for reg
    by (induction reg) (simp_all add: e)
  then have 1: "m_init r \<longrightarrow>
      save_recipe r w
        = (True, r,
           w\<lparr>files := (files w)(get_path r \<mapsto>
                concat (map (\<lambda>(ident, item).
                               size_t_bytes (of_nat (length ident)) @ ident
                               @ size_t_bytes (item_size item) @ content (mem w) item
                               @ (if odd (length ident + unat (item_size item))
                                  then [padding] else []))
                            (m_map r)))\<rparr>)"
    by (simp add: save_recipe_def)
  have 2: "load_loop fresh m
          \<lparr>unread = size_t_bytes (of_nat (length ident)) @ ident
                    @ size_t_bytes (of_nat (length val)) @ val @ rest, eof = False\<rparr> sz ch mm
        = load_loop fresh m
            \<lparr>unread = (if odd (length ident + length val) then drop 1 rest else rest),
             eof = (odd (length ident + length val) \<and> rest = [])\<rparr>
            (of_nat (length val))
            (if odd (length ident + length val) \<and> rest \<noteq> [] then hd rest
             else if ident = [] then ch else last ident)
            (merge_entry m ident val mm)"
    if li: "length ident < 2 ^ 64" and lv: "length val < 2 ^ 64" for fresh m rest sz ch mm
  proof -
    let ?s = "\<lparr>unread = size_t_bytes (of_nat (length ident)) @ ident
                    @ size_t_bytes (of_nat (length val)) @ val @ rest, eof = False\<rparr>"
    have "\<not> eof ?s" and "unread ?s \<noteq> []"
      using length_size_t_bytes [of "of_nat (length ident)"] by auto
    from load_loop_unfold [OF this, of fresh m sz ch mm] show ?thesis
      by (simp only: read_entry_header [OF li lv] store_entry_merge sum.case prod.case)
  qed
  have 3: "load_recipe r w
          = Inr (True, r,
                 w\<lparr>mem := fold (\<lambda>(i, v, e). merge_entry (m_map r) i v) ents
                              (merge_entry (m_map r) ident val (mem w))\<rparr>)"
    if i: "m_init r" and li: "length ident < 2 ^ 64" and lv: "length val < 2 ^ 64"
      and rec: "is_record ents"
      and p: "length pad = (if odd (length ident + length val) then 1 else 0)"
      and f: "files w (get_path r)
            = Some (size_t_bytes (of_nat (length ident)) @ ident
                    @ size_t_bytes (of_nat (length val)) @ val @ pad @ record_bytes ents)"
  proof -
    have "is_record ((ident, val, entry_bytes ident val pad) # ents)"
      using rec is_entryI [OF li lv p] by (simp add: is_record_def)
    moreover have "files w (get_path r)
        = Some (record_bytes ((ident, val, entry_bytes ident val pad) # ents))"
      by (simp add: f record_bytes_def entry_bytes_def)
    ultimately show ?thesis
      using load_recipe_record [OF i, of "(ident, val, entry_bytes ident val pad) # ents" w]
      by simp
  qed
  from 1 2 3 show ?thesis by blast
qed

theorem padding_parity_witness:
  "save_recipe example_store (example_world\<lparr>mem := (\<lambda>a. CHR ''v'')\<rparr>)
     = (True, example_store,
        example_world\<lparr>mem := (\<lambda>a. CHR ''v''),
          files := (files example_world)(''out/test.rcp'' \<mapsto>
           [CHR 0x05, CHR 0x00, CHR 0x00, CHR 0x00, CHR 0x00, CHR 0x00, CHR 0x00, CHR 0x00,
            CHR ''c'', CHR ''o'', CHR ''u'', CHR ''n'', CHR ''t'',
            CHR 0x04, CHR 0x00, CHR 0x00, CHR 0x00, CHR 0x00, CHR 0x00, CHR 0x00, CHR 0x00,
            CHR ''v'', CHR ''v'', CHR ''v'', CHR ''v'', CHR 0x00,
            CHR 0x05, CHR 0x00, CHR 0x00, CHR 0x00, CHR 0x00, CHR 0x00, CHR 0x00, CHR 0x00,
            CHR ''f'', CHR ''l'', CHR ''a'', CHR ''g'', CHR ''s'',
            CHR 0x01, CHR 0x00, CHR 0x00, CHR 0x00, CHR 0x00, CHR 0x00, CHR 0x00, CHR 0x00,
            CHR ''v''])\<rparr>)
   \<and> load_recipe example_store
       (example_world\<lparr>files := [''out/test.rcp'' \<mapsto>
           [CHR 0x05, CHR 0x00, CHR 0x00, CHR 0x00, CHR 0x00, CHR 0x00, CHR 0x00, CHR 0x00,
            CHR ''c'', CHR ''o'', CHR ''u'', CHR ''n'', CHR ''t'',
            CHR 0x04, CHR 0x00, CHR 0x00, CHR 0x00, CHR 0x00, CHR 0x00, CHR 0x00, CHR 0x00,
            CHR ''w'', CHR ''x'', CHR ''y'', CHR ''z'', CHR ''!'',
            CHR 0x05, CHR 0x00, CHR 0x00, CHR 0x00, CHR 0x00, CHR 0x00, CHR 0x00, CHR 0x00,
            CHR ''f'', CHR ''l'', CHR ''a'', CHR ''g'', CHR ''s'',
            CHR 0x01, CHR 0x00, CHR 0x00, CHR 0x00, CHR 0x00, CHR 0x00, CHR 0x00, CHR 0x00,
            CHR ''Y'']]\<rparr>)
     = Inr (True, example_store,
            example_world\<lparr>files := [''out/test.rcp'' \<mapsto>
           [CHR 0x05, CHR 0x00, CHR 0x00, CHR 0x00, CHR 0x00, CHR 0x00, CHR 0x00, CHR 0x00,
            CHR ''c'', CHR ''o'', CHR ''u'', CHR ''n'', CHR ''t'',
            CHR 0x04, CHR 0x00, CHR 0x00, CHR 0x00, CHR 0x00, CHR 0x00, CHR 0x00, CHR 0x00,
            CHR ''w'', CHR ''x'', CHR ''y'', CHR ''z'', CHR ''!'',
            CHR 0x05, CHR 0x00, CHR 0x00, CHR 0x00, CHR 0x00, CHR 0x00, CHR 0x00, CHR 0x00,
            CHR ''f'', CHR ''l'', CHR ''a'', CHR ''g'', CHR ''s'',
            CHR 0x01, CHR 0x00, CHR 0x00, CHR 0x00, CHR 0x00, CHR 0x00, CHR 0x00, CHR 0x00,
            CHR ''Y'']],
              mem := copy_bytes (copy_bytes (\<lambda>a. CHR 0x00) 0 ''wxyz'') 8 ''Y''\<rparr>)"
proof -
  let ?wv = "example_world\<lparr>mem := (\<lambda>a. CHR ''v'')\<rparr>"
  let ?saved = "[CHR 0x05, CHR 0x00, CHR 0x00, CHR 0x00, CHR 0x00, CHR 0x00, CHR 0x00, CHR 0x00,
            CHR ''c'', CHR ''o'', CHR ''u'', CHR ''n'', CHR ''t'',
            CHR 0x04, CHR 0x00, CHR 0x00, CHR 0x00, CHR 0x00, CHR 0x00, CHR 0x00, CHR 0x00,
            CHR ''v'', CHR ''v'', CHR ''v'', CHR ''v'', CHR 0x00,
            CHR 0x05, CHR 0x00, CHR 0x00, CHR 0x00, CHR 0x00, CHR 0x00, CHR 0x00, CHR 0x00,
            CHR ''f'', CHR ''l'', CHR ''a'', CHR ''g'', CHR ''s'',
            CHR 0x01, CHR 0x00, CHR 0x00, CHR 0x00, CHR 0x00, CHR 0x00, CHR 0x00, CHR 0x00,
            CHR ''v'']"
  let ?file = "[CHR 0x05, CHR 0x00, CHR 0x00, CHR 0x00, CHR 0x00, CHR 0x00, CHR 0x00, CHR 0x00,
            CHR ''c'', CHR ''o'', CHR ''u'', CHR ''n'', CHR ''t'',
            CHR 0x04, CHR 0x00, CHR 0x00, CHR 0x00, CHR 0x00, CHR 0x00, CHR 0x00, CHR 0x00,
            CHR ''w'', CHR ''x'', CHR ''y'', CHR ''z'', CHR ''!'',
            CHR 0x05, CHR 0x00, CHR 0x00, CHR 0x00, CHR 0x00, CHR 0x00, CHR 0x00, CHR 0x00,
            CHR ''f'', CHR ''l'', CHR ''a'', CHR ''g'', CHR ''s'',
            CHR 0x01, CHR 0x00, CHR 0x00, CHR 0x00, CHR 0x00, CHR 0x00, CHR 0x00, CHR 0x00,
            CHR ''Y'']"
  let ?wf = "example_world\<lparr>files := [''out/test.rcp'' \<mapsto> ?file]\<rparr>"
  let ?ents = "[(''flags'', ''Y'', entry_bytes ''flags'' ''Y'' [])]"
  have i: "m_init example_store" by (simp add: example_store_def)
  have p: "get_path example_store = ''out/test.rcp''"
    by (simp add: example_store_def get_path_def)
  have sb: "concat (map (\<lambda>(ident, item).
                               size_t_bytes (of_nat (length ident)) @ ident
                               @ size_t_bytes (item_size item) @ content (mem ?wv) item
                               @ (if odd (length ident + unat (item_size item))
                                  then [padding] else []))
                            (m_map example_store)) = ?saved"
  proof -
    have b: "size_t_bytes 5
        = [CHR 0x05, CHR 0x00, CHR 0x00, CHR 0x00, CHR 0x00, CHR 0x00, CHR 0x00, CHR 0x00]"
      "size_t_bytes 4
        = [CHR 0x04, CHR 0x00, CHR 0x00, CHR 0x00, CHR 0x00, CHR 0x00, CHR 0x00, CHR 0x00]"
      "size_t_bytes 1
        = [CHR 0x01, CHR 0x00, CHR 0x00, CHR 0x00, CHR 0x00, CHR 0x00, CHR 0x00, CHR 0x00]"
      by code_simp+
    show ?thesis
      by (simp add: example_store_def b content_def read_bytes_def upt_rec padding_def)
  qed
  have fb: "?file = size_t_bytes (of_nat (length ''count'')) @ ''count''
                    @ size_t_bytes (of_nat (length ''wxyz'')) @ ''wxyz'' @ ''!'' @ record_bytes ?ents"
    by code_simp
  have rec: "is_record ?ents"
    by (simp add: is_record_def is_entryI)
  have h: "m_init example_store \<and> length ''count'' < 2 ^ 64 \<and> length ''wxyz'' < 2 ^ 64
        \<and> is_record ?ents
        \<and> length ''!'' = (if odd (length ''count'' + length ''wxyz'') then 1 else 0)
        \<and> files ?wf (get_path example_store)
            = Some (size_t_bytes (of_nat (length ''count'')) @ ''count''
                    @ size_t_bytes (of_nat (length ''wxyz'')) @ ''wxyz'' @ ''!'' @ record_bytes ?ents)"
    using i rec fb by (simp add: p)
  note pp = padding_parity [where r = example_store and w = ?wv]
  from pp i have 1: "save_recipe example_store ?wv
     = (True, example_store, ?wv\<lparr>files := (files ?wv)(''out/test.rcp'' \<mapsto> ?saved)\<rparr>)"
    by (simp only: sb p)
  have m: "fold (\<lambda>(i, v, e). merge_entry (m_map example_store) i v) ?ents
                              (merge_entry (m_map example_store) ''count'' ''wxyz'' (mem ?wf))
      = copy_bytes (copy_bytes (\<lambda>a. CHR 0x00) 0 ''wxyz'') 8 ''Y''"
    by (simp add: merge_entry_def example_store_def example_world_def)
  from padding_parity [where r = example_store and w = ?wf and ident = "''count''"
      and val = "''wxyz''" and ents = ?ents and pad = "''!''"] h
  have "load_recipe example_store ?wf
          = Inr (True, example_store,
                 ?wf\<lparr>mem := fold (\<lambda>(i, v, e). merge_entry (m_map example_store) i v) ?ents
                              (merge_entry (m_map example_store) ''count'' ''wxyz'' (mem ?wf))\<rparr>)"
    by blast
  then have 2: "load_recipe example_store ?wf
     = Inr (True, example_store,
            ?wf\<lparr>mem := copy_bytes (copy_bytes (\<lambda>a. CHR 0x00) 0 ''wxyz'') 8 ''Y''\<rparr>)"
    by (simp only: m)
  from 1 2 show ?thesis by simp
qed

text \<open>
  C2 (skip policy). Take a file of well-formed entries and one entry in it whose
  identifier is not registered, or is registered with another byte length than the
  value's. Comparing that entry with the registry leaves the memory as it is; the loop
  goes on behind the entry with the memory unchanged (and with \<open>size\<close> and \<open>character\<close>
  as the entry leaves them), so that it loads the well-formed entries that follow as if
  it started there; and \<open>load_recipe\<close> returns true, with the memory that loading the
  file without that entry gives.
\<close>

theorem load_skips_entry:
  assumes init: "m_init r"
    and wf: "is_record (before @ (ident, val, e) # after)"
    and fl: "files w (get_path r) = Some (record_bytes (before @ (ident, val, e) # after))"
    and skip: "map_of (m_map r) ident = None
         \<or> (\<exists>item. map_of (m_map r) ident = Some item \<and> unat (item_size item) \<noteq> length val)"
  shows "(\<forall>mm. store_entry (m_map r) ident (of_nat (length val)) val mm = Inr mm)
       \<and> (\<forall>fresh mm rest sz ch.
             load_loop fresh (m_map r) \<lparr>unread = e @ rest, eof = False\<rparr> sz ch mm
             = load_loop fresh (m_map r) \<lparr>unread = rest, eof = False\<rparr> (of_nat (length val))
                 (if odd (length ident + length val) then last e
                  else if ident = [] then ch else last ident)
                 mm)
       \<and> (\<forall>fresh mm ents sz ch. is_record ents \<longrightarrow>
             load_loop fresh (m_map r) \<lparr>unread = e @ record_bytes ents, eof = False\<rparr> sz ch mm
             = load_loop fresh (m_map r) \<lparr>unread = record_bytes ents, eof = False\<rparr> sz ch mm)
       \<and> (\<exists>mm'. load_loop (unset_array (unset w)) (m_map r)
                   \<lparr>unread = record_bytes (before @ after), eof = False\<rparr>
                   (unset_size (unset w)) (unset_character (unset w)) (mem w) = Inr mm'
                \<and> load_recipe r w = Inr (True, r, w\<lparr>mem := mm'\<rparr>))"
proof -
  from wf have e: "is_entry ident val e" and rest: "is_record (before @ after)"
    by (auto simp: is_record_def)
  from e have lv: "length val < 2 ^ 64" by (simp add: is_entry_def Let_def)
  have m: "\<And>mm. merge_entry (m_map r) ident val mm = mm"
    by (rule merge_entry_skip [OF lv skip])
  have 1: "\<forall>mm. store_entry (m_map r) ident (of_nat (length val)) val mm = Inr mm"
    by (simp add: store_entry_merge m)
  have 2: "\<forall>fresh mm rest sz ch.
             load_loop fresh (m_map r) \<lparr>unread = e @ rest, eof = False\<rparr> sz ch mm
             = load_loop fresh (m_map r) \<lparr>unread = rest, eof = False\<rparr> (of_nat (length val))
                 (if odd (length ident + length val) then last e
                  else if ident = [] then ch else last ident)
                 mm"
    by (simp only: load_loop_entry [OF e] m) simp
  have 3: "\<forall>fresh mm ents sz ch. is_record ents \<longrightarrow>
             load_loop fresh (m_map r) \<lparr>unread = e @ record_bytes ents, eof = False\<rparr> sz ch mm
             = load_loop fresh (m_map r) \<lparr>unread = record_bytes ents, eof = False\<rparr> sz ch mm"
  proof (intro allI impI)
    fix fresh mm ents sz ch assume r: "is_record ents"
    show "load_loop fresh (m_map r) \<lparr>unread = e @ record_bytes ents, eof = False\<rparr> sz ch mm
        = load_loop fresh (m_map r) \<lparr>unread = record_bytes ents, eof = False\<rparr> sz ch mm"
      by (simp only: load_loop_entry [OF e] m load_loop_entries [OF r])
  qed
  let ?f = "\<lambda>(ident, val, e). merge_entry (m_map r) ident val"
  have "fold ?f (before @ (ident, val, e) # after) (mem w) = fold ?f (before @ after) (mem w)"
    by (simp add: m)
  then have "load_loop (unset_array (unset w)) (m_map r)
        \<lparr>unread = record_bytes (before @ (ident, val, e) # after), eof = False\<rparr>
        (unset_size (unset w)) (unset_character (unset w)) (mem w)
      = load_loop (unset_array (unset w)) (m_map r)
          \<lparr>unread = record_bytes (before @ after), eof = False\<rparr>
          (unset_size (unset w)) (unset_character (unset w)) (mem w)"
    by (simp only: load_loop_entries [OF wf] load_loop_entries [OF rest])
  then have 4: "\<exists>mm'. load_loop (unset_array (unset w)) (m_map r)
                   \<lparr>unread = record_bytes (before @ after), eof = False\<rparr>
                   (unset_size (unset w)) (unset_character (unset w)) (mem w) = Inr mm'
                \<and> load_recipe r w = Inr (True, r, w\<lparr>mem := mm'\<rparr>)"
    using init fl by (simp add: load_recipe_def load_loop_entries [OF rest])
  from 1 2 3 4 show ?thesis by blast
qed

theorem load_skips_entry_witness:
  "load_recipe example_store example_world
     = Inr (True, example_store,
            example_world\<lparr>mem := copy_bytes (copy_bytes (\<lambda>a. CHR 0x00) 0 ''wxyz'') 8 ''Y''\<rparr>)
   \<and> load_loop (\<lambda>i. CHR ''#'') (m_map example_store)
       \<lparr>unread = entry_bytes ''count'' ''ab'' ''!'' @ entry_bytes ''flags'' ''Y'' [], eof = False\<rparr>
       3 CHR ''?'' (\<lambda>a. CHR 0x00)
     = Inr (copy_bytes (\<lambda>a. CHR 0x00) 8 ''Y'')"
proof -
  let ?before = "[(''count'', ''wxyz'', entry_bytes ''count'' ''wxyz'' ''!'')]"
  let ?after = "[(''count'', ''ab'', entry_bytes ''count'' ''ab'' ''!''),
      (''flags'', ''Y'', entry_bytes ''flags'' ''Y'' [])]"
  have i: "m_init example_store" by (simp add: example_store_def)
  have wf: "is_record (?before @ (''limit'', ''12'', entry_bytes ''limit'' ''12'' ''!'') # ?after)"
    using example_is_record(1) by (simp add: example_record_def)
  have fl: "files example_world (get_path example_store)
      = Some (record_bytes (?before @ (''limit'', ''12'', entry_bytes ''limit'' ''12'' ''!'') # ?after))"
    by (simp add: example_world_def example_store_def get_path_def example_record_def)
  have sk: "map_of (m_map example_store) ''limit'' = None
       \<or> (\<exists>item. map_of (m_map example_store) ''limit'' = Some item
                \<and> unat (item_size item) \<noteq> length ''12'')"
    by (simp add: example_store_def)
  let ?before2 = "[(''count'', ''wxyz'', entry_bytes ''count'' ''wxyz'' ''!''),
      (''limit'', ''12'', entry_bytes ''limit'' ''12'' ''!'')]"
  let ?after2 = "[(''flags'', ''Y'', entry_bytes ''flags'' ''Y'' [])]"
  have wf2: "is_record (?before2 @ (''count'', ''ab'', entry_bytes ''count'' ''ab'' ''!'') # ?after2)"
    using example_is_record(1) by (simp add: example_record_def)
  have fl2: "files example_world (get_path example_store)
      = Some (record_bytes (?before2 @ (''count'', ''ab'', entry_bytes ''count'' ''ab'' ''!'') # ?after2))"
    by (simp add: example_world_def example_store_def get_path_def example_record_def)
  have sk2: "map_of (m_map example_store) ''count'' = None
       \<or> (\<exists>item. map_of (m_map example_store) ''count'' = Some item
                \<and> unat (item_size item) \<noteq> length ''ab'')"
    by (simp add: example_store_def)
  have ll: "load_loop (unset_array (unset example_world)) (m_map example_store)
       \<lparr>unread = record_bytes (?before @ ?after), eof = False\<rparr>
       (unset_size (unset example_world)) (unset_character (unset example_world))
       (mem example_world)
     = Inr (copy_bytes (copy_bytes (\<lambda>a. CHR 0x00) 0 ''wxyz'') 8 ''Y'')"
    using example_is_record(2)
    by (simp add: load_loop_entries merge_entry_def example_store_def example_world_def)
  from load_skips_entry [OF i wf fl sk] ll
  have 1: "load_recipe example_store example_world
     = Inr (True, example_store,
            example_world\<lparr>mem := copy_bytes (copy_bytes (\<lambda>a. CHR 0x00) 0 ''wxyz'') 8 ''Y''\<rparr>)"
    by auto
  have r2: "is_record ?after2"
    by (simp add: is_record_def is_entryI)
  have l2: "load_loop (\<lambda>i. CHR ''#'') (m_map example_store)
       \<lparr>unread = record_bytes ?after2, eof = False\<rparr> 3 CHR ''?'' (\<lambda>a. CHR 0x00)
     = Inr (copy_bytes (\<lambda>a. CHR 0x00) 8 ''Y'')"
    using r2 by (simp add: load_loop_entries merge_entry_def example_store_def)
  from load_skips_entry [OF i wf2 fl2 sk2] r2
  have "load_loop (\<lambda>i. CHR ''#'') (m_map example_store)
       \<lparr>unread = entry_bytes ''count'' ''ab'' ''!'' @ record_bytes ?after2, eof = False\<rparr>
       3 CHR ''?'' (\<lambda>a. CHR 0x00)
     = load_loop (\<lambda>i. CHR ''#'') (m_map example_store)
         \<lparr>unread = record_bytes ?after2, eof = False\<rparr> 3 CHR ''?'' (\<lambda>a. CHR 0x00)"
    by blast
  with l2 have 2: "load_loop (\<lambda>i. CHR ''#'') (m_map example_store)
       \<lparr>unread = entry_bytes ''count'' ''ab'' ''!'' @ entry_bytes ''flags'' ''Y'' [], eof = False\<rparr>
       3 CHR ''?'' (\<lambda>a. CHR 0x00)
     = Inr (copy_bytes (\<lambda>a. CHR 0x00) 8 ''Y'')"
    by (simp add: record_bytes_def)
  from 1 2 show ?thesis by blast
qed

text \<open>
  C1 as stated fails when the store that loads has its variables at overlapping
  addresses: with the same identifiers and sizes as the store that saved, but both
  variables at address 0, the first variable ends up with the bytes of the second. The
  memory loaded into is that of \<open>example_world\<close>, zero everywhere.
\<close>

theorem roundtrip_fails_on_alias:
  "m_init apart_store \<and> m_init alias_store \<and> get_path alias_store = get_path apart_store
   \<and> map fst (m_map alias_store) = map fst (m_map apart_store)
   \<and> map (item_size \<circ> snd) (m_map alias_store) = map (item_size \<circ> snd) (m_map apart_store)
   \<and> save_recipe apart_store apart_world
     = (True, apart_store,
        apart_world\<lparr>files := (files apart_world)(''out/test.rcp'' \<mapsto>
          [CHR 0x01, CHR 0x00, CHR 0x00, CHR 0x00, CHR 0x00, CHR 0x00, CHR 0x00, CHR 0x00, CHR ''a'',
           CHR 0x01, CHR 0x00, CHR 0x00, CHR 0x00, CHR 0x00, CHR 0x00, CHR 0x00, CHR 0x00, CHR ''A'',
           CHR 0x01, CHR 0x00, CHR 0x00, CHR 0x00, CHR 0x00, CHR 0x00, CHR 0x00, CHR 0x00, CHR ''b'',
           CHR 0x01, CHR 0x00, CHR 0x00, CHR 0x00, CHR 0x00, CHR 0x00, CHR 0x00, CHR 0x00, CHR ''B''])\<rparr>)
   \<and> load_recipe alias_store
       (apart_world\<lparr>files := (files apart_world)(''out/test.rcp'' \<mapsto>
          [CHR 0x01, CHR 0x00, CHR 0x00, CHR 0x00, CHR 0x00, CHR 0x00, CHR 0x00, CHR 0x00, CHR ''a'',
           CHR 0x01, CHR 0x00, CHR 0x00, CHR 0x00, CHR 0x00, CHR 0x00, CHR 0x00, CHR 0x00, CHR ''A'',
           CHR 0x01, CHR 0x00, CHR 0x00, CHR 0x00, CHR 0x00, CHR 0x00, CHR 0x00, CHR 0x00, CHR ''b'',
           CHR 0x01, CHR 0x00, CHR 0x00, CHR 0x00, CHR 0x00, CHR 0x00, CHR 0x00, CHR 0x00, CHR ''B'']),
          mem := mem example_world\<rparr>)
     = Inr (True, alias_store,
        apart_world\<lparr>files := (files apart_world)(''out/test.rcp'' \<mapsto>
          [CHR 0x01, CHR 0x00, CHR 0x00, CHR 0x00, CHR 0x00, CHR 0x00, CHR 0x00, CHR 0x00, CHR ''a'',
           CHR 0x01, CHR 0x00, CHR 0x00, CHR 0x00, CHR 0x00, CHR 0x00, CHR 0x00, CHR 0x00, CHR ''A'',
           CHR 0x01, CHR 0x00, CHR 0x00, CHR 0x00, CHR 0x00, CHR 0x00, CHR 0x00, CHR 0x00, CHR ''b'',
           CHR 0x01, CHR 0x00, CHR 0x00, CHR 0x00, CHR 0x00, CHR 0x00, CHR 0x00, CHR 0x00, CHR ''B'']),
          mem := (mem example_world)(0 := CHR ''B'')\<rparr>)
   \<and> content (mem apart_world) \<lparr>ptr = 0, item_size = 1\<rparr> = ''A''
   \<and> content ((mem example_world)(0 := CHR ''B'')) \<lparr>ptr = 0, item_size = 1\<rparr> = ''B''"
proof -
  let ?file = "[CHR 0x01, CHR 0x00, CHR 0x00, CHR 0x00, CHR 0x00, CHR 0x00, CHR 0x00, CHR 0x00, CHR ''a'',
           CHR 0x01, CHR 0x00, CHR 0x00, CHR 0x00, CHR 0x00, CHR 0x00, CHR 0x00, CHR 0x00, CHR ''A'',
           CHR 0x01, CHR 0x00, CHR 0x00, CHR 0x00, CHR 0x00, CHR 0x00, CHR 0x00, CHR 0x00, CHR ''b'',
           CHR 0x01, CHR 0x00, CHR 0x00, CHR 0x00, CHR 0x00, CHR 0x00, CHR 0x00, CHR 0x00, CHR ''B'']"
  let ?ents = "[(''a'', ''A'', entry_bytes ''a'' ''A'' []), (''b'', ''B'', entry_bytes ''b'' ''B'' [])]"
  let ?w1 = "apart_world\<lparr>files := (files apart_world)(''out/test.rcp'' \<mapsto> ?file),
          mem := mem example_world\<rparr>"
  have b1: "size_t_bytes 1
      = [CHR 0x01, CHR 0x00, CHR 0x00, CHR 0x00, CHR 0x00, CHR 0x00, CHR 0x00, CHR 0x00]"
    by code_simp
  have i: "m_init apart_store" "m_init alias_store"
    by (simp_all add: apart_store_def alias_store_def example_store_def)
  have p: "get_path apart_store = ''out/test.rcp''" "get_path alias_store = ''out/test.rcp''"
    by (simp_all add: apart_store_def alias_store_def example_store_def get_path_def)
  have k: "map fst (m_map alias_store) = map fst (m_map apart_store)"
    "map (item_size \<circ> snd) (m_map alias_store) = map (item_size \<circ> snd) (m_map apart_store)"
    by (simp_all add: apart_store_def alias_store_def)
  have sv: "save_entries (mem apart_world) (m_map apart_store) = ?file"
    by (simp add: apart_store_def apart_world_def save_entry_def read_bytes_def b1)
  have s: "save_recipe apart_store apart_world
     = (True, apart_store, apart_world\<lparr>files := (files apart_world)(''out/test.rcp'' \<mapsto> ?file)\<rparr>)"
    using i(1) by (simp add: save_recipe_def sv p)
  have fb: "?file = record_bytes ?ents"
    by (simp add: record_bytes_def entry_bytes_def b1)
  have rec: "is_record ?ents"
    by (simp add: is_record_def is_entryI)
  have f: "files ?w1 (get_path alias_store) = Some (record_bytes ?ents)"
    by (simp add: p fb [symmetric])
  have "fold (\<lambda>(ident, val, e). merge_entry (m_map alias_store) ident val) ?ents (mem ?w1)
      = (mem example_world)(0 := CHR ''B'')"
    by (simp add: merge_entry_def alias_store_def)
  with load_recipe_record [OF i(2) rec f]
  have l: "load_recipe alias_store ?w1
      = Inr (True, alias_store, ?w1\<lparr>mem := (mem example_world)(0 := CHR ''B'')\<rparr>)"
    by (simp only:)
  have c: "content (mem apart_world) \<lparr>ptr = 0, item_size = 1\<rparr> = ''A''"
    "content ((mem example_world)(0 := CHR ''B'')) \<lparr>ptr = 0, item_size = 1\<rparr> = ''B''"
    by (simp_all add: content_def read_bytes_def apart_world_def)
  from i p k s l c show ?thesis by simp
qed

text \<open>
  C1, amended (round trip). A store is saved (it is initialized; the identifiers of a
  registry are distinct, and the length of a \<open>std::string\<close> fits \<open>size_t\<close>):
  \<open>save_recipe\<close> returns true. Then the memory is replaced by anything at all, zeros in
  particular, and the file is loaded by the same store, or by another initialized store
  on the same path whose registry has the same identifiers with the same sizes, at the
  same addresses or at addresses where no two variables overlap. \<open>load_recipe\<close> returns
  true, and every variable then holds the bytes that the variable of the same identifier
  held when the store was saved.
\<close>

theorem save_load_roundtrip:
  assumes init: "m_init r" and init2: "m_init r2" and path: "get_path r2 = get_path r"
    and keys: "distinct (map fst (m_map r))"
    and lens: "\<forall>(ident, item) \<in> set (m_map r). length ident < 2 ^ 64"
    and same: "\<forall>ident. map_option item_size (map_of (m_map r2) ident)
                      = map_option item_size (map_of (m_map r) ident)"
    and layout: "(\<forall>ident. map_of (m_map r2) ident = map_of (m_map r) ident)
               \<or> (\<forall>ident ident' item item'.
                    map_of (m_map r2) ident = Some item \<and> map_of (m_map r2) ident' = Some item'
                    \<and> ident \<noteq> ident' \<longrightarrow> \<not> overlap item item')"
  shows "\<exists>w1 w2. save_recipe r w = (True, r, w1)
           \<and> load_recipe r2 (w1\<lparr>mem := mm\<rparr>) = Inr (True, r2, w2)
           \<and> (\<forall>(ident, item) \<in> set (m_map r).
                 \<exists>item2. map_of (m_map r2) ident = Some item2
                        \<and> content (mem w2) item2 = content (mem w) item)"
proof -
  let ?bs = "save_entries (mem w) (m_map r)"
  let ?w1 = "w\<lparr>files := (files w)(get_path r \<mapsto> ?bs)\<rparr>"
  let ?f = "\<lambda>(ident, val, e). merge_entry (m_map r2) ident val"
  let ?M = "fold ?f (map (saved_entry (mem w)) (m_map r)) mm"
  have s: "save_recipe r w = (True, r, ?w1)"
    using init by (simp add: save_recipe_def)
  have ll: "load_loop fresh (m_map r2) \<lparr>unread = ?bs, eof = False\<rparr> sz ch mm = Inr ?M"
    for fresh sz ch
    by (simp only: save_entries_record load_loop_entries [OF is_record_saved [OF lens]])
  have l: "load_recipe r2 (?w1\<lparr>mem := mm\<rparr>) = Inr (True, r2, ?w1\<lparr>mem := ?M\<rparr>)"
    using init2 path by (simp add: load_recipe_def ll)
  have mo: "map_of (m_map r) ident = Some item" if "(ident, item) \<in> set (m_map r)" for ident item
    using keys that by simp
  have "\<exists>item2. map_of (m_map r2) ident = Some item2 \<and> content ?M item2 = content (mem w) item"
    if m: "(ident, item) \<in> set (m_map r)" for ident item
  proof -
    from same [rule_format, of ident] mo [OF m] obtain item2 where
      i2: "map_of (m_map r2) ident = Some item2" and sz: "item_size item2 = item_size item"
      by (auto simp: map_option_case split: option.splits)
    have "content ?M item2 = content (mem w) item"
    proof (rule content_eqI [OF sz])
      fix i assume i: "i < unat (item_size item2)"
      let ?a = "ptr item2 + i"
      from i have ir: "in_region item2 ?a" by (simp add: in_region_def)
      with m i2 sz have wr: "\<exists>(ident, item1) \<in> set (m_map r). \<exists>item2.
              map_of (m_map r2) ident = Some item2 \<and> item_size item2 = item_size item1
              \<and> in_region item2 ?a"
        by blast
      from fold_merge_relocated [of "m_map r" "m_map r2" ?a "mem w" mm] wr
      obtain ident' item1' item2' where
        m': "(ident', item1') \<in> set (m_map r)" and i2': "map_of (m_map r2) ident' = Some item2'"
        and ir': "in_region item2' ?a"
        and v: "?M ?a = mem w (ptr item1' + (?a - ptr item2'))"
        by blast
      from layout show "?M ?a = mem w (ptr item + i)"
      proof
        assume eq: "\<forall>ident. map_of (m_map r2) ident = map_of (m_map r) ident"
        with i2 mo [OF m] have "item2 = item" by simp
        moreover from eq i2' mo [OF m'] have "item2' = item1'" by simp
        moreover from ir' have "ptr item2' \<le> ?a" by (simp add: in_region_def)
        ultimately show ?thesis using v by simp
      next
        assume dj: "\<forall>ident ident' item item'.
                    map_of (m_map r2) ident = Some item \<and> map_of (m_map r2) ident' = Some item'
                    \<and> ident \<noteq> ident' \<longrightarrow> \<not> overlap item item'"
        from in_region_overlap [OF ir ir'] dj i2 i2' have "ident = ident'" by blast
        with i2 i2' mo [OF m] mo [OF m'] have "item2' = item2" and "item1' = item" by simp_all
        with v show ?thesis by simp
      qed
    qed
    with i2 show ?thesis by blast
  qed
  with s l show ?thesis by auto
qed

theorem save_load_roundtrip_witness:
  "\<exists>w1 w2 w3.
     save_recipe example_store
        (example_world\<lparr>mem := (\<lambda>a. if a < 4 then ''wxyz'' ! a else CHR ''F'')\<rparr>)
       = (True, example_store, w1)
     \<and> load_recipe example_store (w1\<lparr>mem := (\<lambda>a. CHR 0x00)\<rparr>) = Inr (True, example_store, w2)
     \<and> content (mem w2) \<lparr>ptr = 0, item_size = 4\<rparr> = ''wxyz''
     \<and> content (mem w2) \<lparr>ptr = 8, item_size = 1\<rparr> = ''F''
     \<and> load_recipe
          (example_store\<lparr>m_map := [(''flags'', \<lparr>ptr = 100, item_size = 1\<rparr>),
                                   (''count'', \<lparr>ptr = 200, item_size = 4\<rparr>)]\<rparr>)
          (w1\<lparr>mem := (\<lambda>a. CHR 0x00)\<rparr>)
       = Inr (True,
              example_store\<lparr>m_map := [(''flags'', \<lparr>ptr = 100, item_size = 1\<rparr>),
                                      (''count'', \<lparr>ptr = 200, item_size = 4\<rparr>)]\<rparr>, w3)
     \<and> content (mem w3) \<lparr>ptr = 200, item_size = 4\<rparr> = ''wxyz''
     \<and> content (mem w3) \<lparr>ptr = 100, item_size = 1\<rparr> = ''F''"
proof -
  let ?w = "example_world\<lparr>mem := (\<lambda>a. if a < 4 then ''wxyz'' ! a else CHR ''F'')\<rparr>"
  let ?r2 = "example_store\<lparr>m_map := [(''flags'', \<lparr>ptr = 100, item_size = 1\<rparr>),
                                   (''count'', \<lparr>ptr = 200, item_size = 4\<rparr>)]\<rparr>"
  have i: "m_init example_store" by (simp add: example_store_def)
  have k: "distinct (map fst (m_map example_store))" by (simp add: example_store_def)
  have n: "\<forall>(ident, item) \<in> set (m_map example_store). length ident < 2 ^ 64"
    by (simp add: example_store_def)
  have c0: "content (mem ?w) \<lparr>ptr = 0, item_size = 4\<rparr> = ''wxyz''"
    and c8: "content (mem ?w) \<lparr>ptr = 8, item_size = 1\<rparr> = ''F''"
    by (simp_all add: content_def read_bytes_def upt_rec)
  have reg: "m_map example_store
      = [(''count'', \<lparr>ptr = 0, item_size = 4\<rparr>), (''flags'', \<lparr>ptr = 8, item_size = 1\<rparr>)]"
    by (simp add: example_store_def)
  have sa: "\<forall>ident. map_option item_size (map_of (m_map example_store) ident)
                      = map_option item_size (map_of (m_map example_store) ident)"
    by simp
  have la: "(\<forall>ident. map_of (m_map example_store) ident = map_of (m_map example_store) ident)
               \<or> (\<forall>ident ident' item item'.
                    map_of (m_map example_store) ident = Some item
                    \<and> map_of (m_map example_store) ident' = Some item'
                    \<and> ident \<noteq> ident' \<longrightarrow> \<not> overlap item item')"
    by simp
  from save_load_roundtrip [OF i i refl k n sa la, of ?w "\<lambda>a. CHR 0x00"]
  obtain w1 w2 where
    s: "save_recipe example_store ?w = (True, example_store, w1)"
    and l: "load_recipe example_store (w1\<lparr>mem := (\<lambda>a. CHR 0x00)\<rparr>) = Inr (True, example_store, w2)"
    and c: "\<forall>(ident, item) \<in> set (m_map example_store).
              \<exists>item2. map_of (m_map example_store) ident = Some item2
                     \<and> content (mem w2) item2 = content (mem ?w) item"
    by blast
  from c have a1: "content (mem w2) \<lparr>ptr = 0, item_size = 4\<rparr> = ''wxyz''"
    and a2: "content (mem w2) \<lparr>ptr = 8, item_size = 1\<rparr> = ''F''"
    unfolding reg using c0 c8 by simp_all
  have i2: "m_init ?r2" by (simp add: example_store_def)
  have p2: "get_path ?r2 = get_path example_store" by (simp add: get_path_def)
  have sb: "\<forall>ident. map_option item_size (map_of (m_map ?r2) ident)
                      = map_option item_size (map_of (m_map example_store) ident)"
    by (simp add: reg)
  have lb: "(\<forall>ident. map_of (m_map ?r2) ident = map_of (m_map example_store) ident)
               \<or> (\<forall>ident ident' item item'.
                    map_of (m_map ?r2) ident = Some item \<and> map_of (m_map ?r2) ident' = Some item'
                    \<and> ident \<noteq> ident' \<longrightarrow> \<not> overlap item item')"
    by (auto simp: overlap_def split: if_splits)
  from save_load_roundtrip [OF i i2 p2 k n sb lb, of ?w "\<lambda>a. CHR 0x00"] s
  obtain w3 where
    l3: "load_recipe ?r2 (w1\<lparr>mem := (\<lambda>a. CHR 0x00)\<rparr>) = Inr (True, ?r2, w3)"
    and c3: "\<forall>(ident, item) \<in> set (m_map example_store).
              \<exists>item2. map_of (m_map ?r2) ident = Some item2
                     \<and> content (mem w3) item2 = content (mem ?w) item"
    by auto
  from c3 have b1: "content (mem w3) \<lparr>ptr = 200, item_size = 4\<rparr> = ''wxyz''"
    and b2: "content (mem w3) \<lparr>ptr = 100, item_size = 1\<rparr> = ''F''"
    unfolding reg using c0 c8 by simp_all
  from s l a1 a2 l3 b1 b2 show ?thesis by blast
qed



end
